theory Spec2Isabelle
  imports Main "HOL-Library.Word"
begin

section \<open>The Fock state encoding of \<open>fockstate.cpp\<close>\<close>

text \<open>
  A \<open>fockstate\<close> object holds the mode count \<open>_m\<close>, the particle count \<open>_n\<close> and
  the pointer \<open>_code\<close> to a buffer of \<open>_n\<close> chars, one per particle, the particle in
  mode \<open>i\<close> being stored as \<open>char(i + 'A')\<close>. A null \<open>_code\<close> is the undefined state;
  the static one-byte \<open>n0_buffer\<close> is the buffer of every defined state without
  particles and none of its bytes is ever read, so it is the empty list here.
  The flag \<open>_owned_data\<close> only decides who frees the buffer and whether \<open>operator++\<close>
  copies it before writing; with buffers as values it has nothing left to decide and
  is not part of the record.

  \<open>char\<close> is the 8-bit byte, read as a signed value where the code promotes it to
  \<open>int\<close> (the x86 ABIs); storing an \<open>int\<close> into a \<open>char\<close> keeps the low eight bits.
  The bytes of the modes 0 to 62 are then the positive values 65 to 127. Where
  \<open>char\<close> is unsigned the modes 0 to 190 fit; the states with 192 modes that the
  theorems below evaluate leave the byte in both readings.
\<close>

type_synonym cchar = "8 word"

definition char_to_int :: "cchar \<Rightarrow> int" where
  "char_to_int c = sint c"

definition int_to_char :: "int \<Rightarrow> cchar" where
  "int_to_char i = word_of_int i"

text \<open>
  An \<open>int\<close> has 32 bits. The fields and variables of that type are integers
  here, and \<open>wrap_int\<close> writes the wrap-around of the two's complement out where
  a result leaves the range on inputs of a few bytes: the particle count added up
  from an occupation vector, the counts that the parser reads and adds up, and
  the two counters of the loop over the modes of a slice. The other sums are of
  the counts of buffers that exist and of the mode counts of states.
\<close>

definition wrap_int :: "int \<Rightarrow> int" where
  "wrap_int i = (i + 2147483648) mod 4294967296 - 2147483648"

text \<open>\<open>a / b\<close> and \<open>a % b\<close> on \<open>int\<close> round the quotient towards zero.\<close>

definition c_div :: "int \<Rightarrow> int \<Rightarrow> int" where
  "c_div a b = sgn a * sgn b * (\<bar>a\<bar> div \<bar>b\<bar>)"

definition c_mod :: "int \<Rightarrow> int \<Rightarrow> int" where
  "c_mod a b = sgn a * (\<bar>a\<bar> mod \<bar>b\<bar>)"

text \<open>
  The exceptions of the code, by class and message; \<open>bad_array_new_length\<close> is
  what \<open>new char[k]\<close> raises for a negative \<open>k\<close>. The last three values are not
  exceptions: \<open>null_dereference\<close> stands for a read through the null \<open>_code\<close>,
  \<open>out_of_bounds\<close> for a write outside a vector, and \<open>nontermination\<close> for a
  loop that never leaves.
\<close>

datatype error =
    invalid_argument string
  | out_of_range string
  | bad_array_new_length
  | null_dereference
  | out_of_bounds
  | nontermination

record fockstate =
  fs_m :: int
  fs_n :: int
  fs_code :: "cchar list option"

subsection \<open>Constructors\<close>

text \<open>\<open>fockstate()\<close> and \<open>fockstate(int m)\<close>.\<close>

definition fockstate_default :: fockstate where
  "fockstate_default = \<lparr>fs_m = 0, fs_n = 0, fs_code = None\<rparr>"

definition fockstate_m :: "int \<Rightarrow> fockstate" where
  "fockstate_m m = \<lparr>fs_m = m, fs_n = 0, fs_code = Some []\<rparr>"

text \<open>\<open>fockstate(int m, int n)\<close>: all \<open>n\<close> particles in mode 0 (\<open>memset(_code, 'A', _n)\<close>).\<close>

definition fockstate_mn :: "int \<Rightarrow> int \<Rightarrow> error + fockstate" where
  "fockstate_mn m n =
     (if n = 0 then Inr \<lparr>fs_m = m, fs_n = n, fs_code = Some []\<rparr>
      else if n < 0 then Inl bad_array_new_length
      else Inr \<lparr>fs_m = m, fs_n = n, fs_code = Some (replicate (nat n) (int_to_char 65))\<rparr>)"

text \<open>
  The two nested loops that write the buffer from an occupation vector, in
  \<open>_set_fs_vect\<close> and at the end of \<open>_parse_str\<close>:
  \<open>for i < _m: for j < fs_vect[i]: _code[k++] = char(i + 'A')\<close>.
\<close>

fun fill_code :: "int \<Rightarrow> int list \<Rightarrow> cchar list" where
  "fill_code i [] = []"
| "fill_code i (c # cs) = replicate (nat c) (int_to_char (i + 65)) @ fill_code (i + 1) cs"


text \<open>The copy constructor; \<open>copy()\<close> and \<open>operator=\<close> build the same value.\<close>

definition fockstate_copy :: "fockstate \<Rightarrow> error + fockstate" where
  "fockstate_copy b =
     (case fs_code b of
        None \<Rightarrow> Inr \<lparr>fs_m = fs_m b, fs_n = fs_n b, fs_code = None\<rparr>
      | Some code \<Rightarrow>
          if fs_n b = 0 then Inr \<lparr>fs_m = fs_m b, fs_n = fs_n b, fs_code = Some []\<rparr>
          else if fs_n b < 0 then Inl bad_array_new_length
          else Inr \<lparr>fs_m = fs_m b, fs_n = fs_n b, fs_code = Some (take (nat (fs_n b)) code)\<rparr>)"



subsection \<open>The parser \<open>_parse_str\<close>\<close>

text \<open>
  A C string is the list of its bytes before the terminating NUL; \<open>*str\<close> at the end
  of the list reads that NUL.
\<close>

definition peek :: "string \<Rightarrow> char" where
  "peek str = (case str of [] \<Rightarrow> CHR 0x00 | c # _ \<Rightarrow> c)"

fun skip_blanks :: "string \<Rightarrow> string" where
  "skip_blanks [] = []"
| "skip_blanks (c # s) = (if c = CHR '' '' then skip_blanks s else c # s)"

definition isdigit :: "char \<Rightarrow> bool" where
  "isdigit c = (c \<in> set ''0123456789'')"

text \<open>\<open>while (std::isdigit(*str)) { cn = 10 * cn + (*str - '0'); str++; }\<close>\<close>

fun read_digits :: "int \<Rightarrow> string \<Rightarrow> int \<times> string" where
  "read_digits cn [] = (cn, [])"
| "read_digits cn (c # s) =
     (if isdigit c then read_digits (wrap_int (10 * cn + (of_char c - 48))) s else (cn, c # s))"

text \<open>
  \<open>for (j = 1; str[j] && str[j] != '}'; j++);\<close> on the text after the opening brace:
  the annotation text and what follows the closing brace, or nothing when the
  string ends first.
\<close>

fun split_annot :: "string \<Rightarrow> (string \<times> string) option" where
  "split_annot [] = None"
| "split_annot (c # s) =
     (if c = CHR 0x00 then None
      else if c = CHR ''}'' then Some ([], s)
      else map_option (\<lambda>(sa, r). (c # sa, r)) (split_annot s))"

text \<open>
  One pass of the loop \<open>while (std::isdigit(*str) || *str == '{')\<close>: a count, then an
  optional annotation. The class \<open>annotation\<close> is not part of this file; \<open>annot\<close> says
  which exception, if any, building an annotation from a text raises. The map of
  annotations that the loop fills is never read again.
\<close>

definition parse_subterm :: "(string \<Rightarrow> error option) \<Rightarrow> string \<Rightarrow> error + (int \<times> string)" where
  "parse_subterm annot str =
     (let (cn, str1) = (if peek str = CHR ''{'' then (1, str) else read_digits 0 str) in
      if peek str1 = CHR ''{'' then
        (if cn = 0 then
           Inl (invalid_argument ''invalid fock state representation (annotation on 0 photons)'')
         else
           (case split_annot (tl str1) of
              None \<Rightarrow> Inl (invalid_argument ''invalid fock state representation (no annotation close)'')
            | Some (sa, str2) \<Rightarrow>
                (case annot sa of Some e \<Rightarrow> Inl e | None \<Rightarrow> Inr (cn, str2))))
      else Inr (cn, str1))"

text \<open>
  The loop \<open>while (std::isdigit(*str) || *str == '{')\<close> of one mode: the counts of
  its sub-terms are added up in \<open>total_cn\<close>, by
  \<open>for (int i = 0; i < cn; i++) total_cn++;\<close>, which adds nothing for a count
  that has wrapped below zero.
\<close>

function parse_mode :: "(string \<Rightarrow> error option) \<Rightarrow> string \<Rightarrow> int \<Rightarrow> error + (string \<times> int)" where
  "parse_mode annot str total_cn =
     (if isdigit (peek str) \<or> peek str = CHR ''{'' then
        (case parse_subterm annot str of
           Inl e \<Rightarrow> Inl e
         | Inr (cn, str') \<Rightarrow>
             parse_mode annot str' (wrap_int (total_cn + (if 0 < cn then cn else 0))))
      else Inr (str, total_cn))"
  by pat_completeness auto

text \<open>
  The outer \<open>while (true)\<close> of \<open>_parse_str\<close>: one mode per pass, the modes after the
  first each behind a comma. It leaves at the end of the string, at a character
  that starts no mode, at a missing comma, and at a comma before any mode.
\<close>

function parse_terms ::
  "(string \<Rightarrow> error option) \<Rightarrow> string \<Rightarrow> int list \<Rightarrow> int \<Rightarrow> error + (string \<times> int list \<times> int)" where
  "parse_terms annot str0 fs_vect n =
     (let str = skip_blanks str0 in
      if peek str = CHR 0x00 \<or> peek str \<notin> set ''0123456789,{'' \<or>
         (fs_vect \<noteq> [] \<and> peek str \<noteq> CHR '','') \<or> (fs_vect = [] \<and> peek str = CHR '','')
      then Inr (str, fs_vect, n)
      else
        (case parse_mode annot (if peek str = CHR '','' then skip_blanks (tl str) else str) 0 of
           Inl e \<Rightarrow> Inl e
         | Inr (str', total_cn) \<Rightarrow>
             parse_terms annot str' (fs_vect @ [total_cn]) (wrap_int (n + total_cn))))"
  by pat_completeness auto

text \<open>
  The loop that counts the bare commas of an undefined state:
  \<open>while (true) { str = skip_blanks(str); if (*str != ',') break; _m += 1; str++; }\<close>
\<close>

function count_commas :: "string \<Rightarrow> int \<Rightarrow> string \<times> int" where
  "count_commas str0 m =
     (let str = skip_blanks str0 in
      if peek str \<noteq> CHR '','' then (str, m) else count_commas (tl str) (m + 1))"
  by pat_completeness auto

text \<open>
  \<open>_parse_str\<close>. The closing delimiter of \<open>|\<close> is \<open>>\<close> or the three bytes
  \<open>E3 80 89\<close> of the right angle bracket; \<open>strncmp(str, ..., 3) == 0\<close> compares the
  next three bytes with them. The buffer is allocated and filled as in
  \<open>_set_fs_vect\<close>, for a particle count that may have wrapped.
\<close>

definition parse_str :: "(string \<Rightarrow> error option) \<Rightarrow> string \<Rightarrow> error + fockstate" where
  "parse_str annot str0 =
     (let str = skip_blanks str0; open_char = peek str in
      if open_char \<noteq> CHR ''['' \<and> open_char \<noteq> CHR ''|'' \<and> open_char \<noteq> CHR ''('' then
        Inl (invalid_argument ''invalid fock state representation'')
      else
        (case parse_terms annot (tl str) [] 0 of
           Inl e \<Rightarrow> Inl e
         | Inr (str1, fs_vect, n) \<Rightarrow>
             let (str2, m) = (if fs_vect = [] \<and> peek str1 = CHR '','' then count_commas str1 1
                              else (str1, 0)) in
             if (open_char = CHR ''['' \<and> peek str2 \<noteq> CHR '']'') \<or>
                (open_char = CHR ''('' \<and> peek str2 \<noteq> CHR '')'') \<or>
                (open_char = CHR ''|'' \<and>
                   \<not> (peek str2 = CHR ''>'' \<or> take 3 str2 = [CHR 0xE3, CHR 0x80, CHR 0x89]))
             then Inl (invalid_argument ''invalid fock state representation (bad close)'')
             else
               let str3 = skip_blanks (if peek str2 \<in> set ''>)]'' then tl str2 else drop 3 str2) in
               if peek str3 \<noteq> CHR 0x00 then
                 Inl (invalid_argument ''invalid fock state representation (extra chars)'')
               else if m \<noteq> 0 then Inr \<lparr>fs_m = m, fs_n = n, fs_code = None\<rparr>
               else if n \<noteq> 0 then
                 (if n < 0 then Inl bad_array_new_length
                  else Inr \<lparr>fs_m = int (length fs_vect), fs_n = n,
                            fs_code = Some (fill_code 0 fs_vect)\<rparr>)
               else Inr \<lparr>fs_m = int (length fs_vect), fs_n = n, fs_code = Some []\<rparr>))"



subsection \<open>Equality, \<open>operator==\<close>\<close>

text \<open>\<open>for (int i = 0; i < a._n; i++) if (a._code[i] != b._code[i]) return false;\<close>\<close>

function eq_loop :: "cchar list \<Rightarrow> cchar list \<Rightarrow> int \<Rightarrow> int \<Rightarrow> bool" where
  "eq_loop ca cb i n =
     (if i < n then (if ca ! nat i \<noteq> cb ! nat i then False else eq_loop ca cb (i + 1) n)
      else True)"
  by pat_completeness auto
termination
  by (relation "measure (\<lambda>(ca, cb, i, n). nat (n - i))") auto

declare eq_loop.simps [simp del]

definition fockstate_eq :: "fockstate \<Rightarrow> fockstate \<Rightarrow> bool" where
  "fockstate_eq a b =
     (if fs_m a \<noteq> fs_m b \<or> fs_n a \<noteq> fs_n b then False
      else if fs_m a = 0 \<and> fs_m b = 0 then True
      else if fs_code a = None \<and> fs_code b = None then True
      else if fs_code a = None \<or> fs_code b = None then False
      else eq_loop (the (fs_code a)) (the (fs_code b)) 0 (fs_n a))"

subsection \<open>The successor, \<open>operator++\<close>, and increments by a count\<close>

text \<open>\<open>for (i = _n - 1; i >= 0 && _code[i] == _m - 1 + 'A'; i--);\<close>\<close>

function scan_last :: "int \<Rightarrow> cchar list \<Rightarrow> int \<Rightarrow> int" where
  "scan_last m code i =
     (if i \<ge> 0 \<and> char_to_int (code ! nat i) = m - 1 + 65 then scan_last m code (i - 1) else i)"
  by pat_completeness auto
termination
  by (relation "measure (\<lambda>(m, code, i). nat (i + 1))") auto

text \<open>\<open>for (int j = i + 1; j < _n; j++) _code[j] = _code[i];\<close>\<close>

function reset_after :: "cchar list \<Rightarrow> int \<Rightarrow> int \<Rightarrow> int \<Rightarrow> cchar list" where
  "reset_after code i j n =
     (if j < n then reset_after (code[nat j := code ! nat i]) i (j + 1) n else code)"
  by pat_completeness auto
termination
  by (relation "measure (\<lambda>(code, i, j, n). nat (n - j))") auto

declare scan_last.simps [simp del] reset_after.simps [simp del]

definition fockstate_incr :: "fockstate \<Rightarrow> error + fockstate" where
  "fockstate_incr fs =
     (case fs_code fs of
        None \<Rightarrow> Inl (invalid_argument ''cannot make operation on ndef-state'')
      | Some code \<Rightarrow>
          let i = scan_last (fs_m fs) code (fs_n fs - 1) in
          if i < 0 then Inr (fs\<lparr>fs_code := None\<rparr>)
          else
            let code1 = code[nat i := int_to_char (char_to_int (code ! nat i) + 1)] in
            Inr (fs\<lparr>fs_code := Some (reset_after code1 i (i + 1) (fs_n fs))\<rparr>))"

text \<open>
  \<open>while (c) { ++fs; c--; }\<close> of \<open>operator+\<close> and \<open>operator+=\<close>. For a negative \<open>c\<close>
  the loop only leaves through the exception of \<open>operator++\<close>, and it need not leave
  at all.
\<close>

partial_function (option) incr_loop :: "fockstate \<Rightarrow> int \<Rightarrow> (error + fockstate) option" where
  "incr_loop fs c =
     (if c = 0 then Some (Inr fs)
      else if isl (fockstate_incr fs) then Some (Inl (projl (fockstate_incr fs)))
      else incr_loop (projr (fockstate_incr fs)) (c - 1))"

declare incr_loop.simps [code]

definition fockstate_plus :: "fockstate \<Rightarrow> int \<Rightarrow> (error + fockstate) option" where
  "fockstate_plus fs c =
     (if fs_code fs = None then Some (Inl (invalid_argument ''cannot make operation on ndef-state''))
      else (case fockstate_copy fs of Inl e \<Rightarrow> Some (Inl e) | Inr fs' \<Rightarrow> incr_loop fs' c))"

definition fockstate_plus_assign :: "fockstate \<Rightarrow> int \<Rightarrow> (error + fockstate) option" where
  "fockstate_plus_assign fs c = incr_loop fs c"

text \<open>The successor applied \<open>k\<close> times, stopping at the first exception.\<close>

fun incr_times :: "nat \<Rightarrow> fockstate \<Rightarrow> error + fockstate" where
  "incr_times 0 fs = Inr fs"
| "incr_times (Suc k) fs =
     (case incr_times k fs of Inl e \<Rightarrow> Inl e | Inr fs' \<Rightarrow> fockstate_incr fs')"

subsection \<open>The tensor product, \<open>operator*\<close>\<close>

text \<open>
  \<open>while (k < _n) { _new_code[k] = _code[k]; k++; }\<close> and
  \<open>while (k < _n + b._n) { _new_code[k] = b._code[k - _n] + _m; k++; }\<close>: the new
  buffer is written from its first byte on, one byte per pass.
\<close>

function mult_loop_a :: "cchar list \<Rightarrow> int \<Rightarrow> int \<Rightarrow> cchar list \<Rightarrow> int \<times> cchar list" where
  "mult_loop_a code n k new_code =
     (if k < n then mult_loop_a code n (k + 1) (new_code @ [code ! nat k]) else (k, new_code))"
  by pat_completeness auto
termination
  by (relation "measure (\<lambda>(code, n, k, new_code). nat (n - k))") auto

function mult_loop_b ::
  "cchar list \<Rightarrow> int \<Rightarrow> int \<Rightarrow> int \<Rightarrow> int \<Rightarrow> cchar list \<Rightarrow> int \<times> cchar list" where
  "mult_loop_b b_code n m lim k new_code =
     (if k < lim then
        mult_loop_b b_code n m lim (k + 1)
          (new_code @ [int_to_char (char_to_int (b_code ! nat (k - n)) + m)])
      else (k, new_code))"
  by pat_completeness auto
termination
  by (relation "measure (\<lambda>(b_code, n, m, lim, k, new_code). nat (lim - k))") auto

declare mult_loop_a.simps [simp del] mult_loop_b.simps [simp del]

definition fockstate_mult :: "fockstate \<Rightarrow> fockstate \<Rightarrow> error + fockstate" where
  "fockstate_mult a b =
     (if fs_code a = None \<or> fs_code b = None then
        Inl (invalid_argument ''cannot make operation on ndef-state'')
      else if fs_n a + fs_n b < 0 then Inl bad_array_new_length
      else
        let (k1, code1) = mult_loop_a (the (fs_code a)) (fs_n a) 0 [];
            (k2, code2) = mult_loop_b (the (fs_code b)) (fs_n a) (fs_m a) (fs_n a + fs_n b) k1 code1
        in Inr \<lparr>fs_m = fs_m a + fs_m b, fs_n = k2, fs_code = Some code2\<rparr>)"

subsection \<open>Occupations: \<open>operator[]\<close> and \<open>to_vect\<close>\<close>

text \<open>
  \<open>for (int i = 0; i < _n && _code[i] - 'A' <= idx; i++) if (_code[i] - 'A' == idx) nc++;\<close>
  The code does not look at \<open>_code\<close> before it reads \<open>_code[i]\<close>.
\<close>

function index_loop :: "cchar list option \<Rightarrow> int \<Rightarrow> int \<Rightarrow> int \<Rightarrow> int \<Rightarrow> error + int" where
  "index_loop code n idx i nc =
     (if i < n then
        (case code of
           None \<Rightarrow> Inl null_dereference
         | Some cs \<Rightarrow>
             if char_to_int (cs ! nat i) - 65 \<le> idx then
               index_loop code n idx (i + 1)
                 (if char_to_int (cs ! nat i) - 65 = idx then nc + 1 else nc)
             else Inr nc)
      else Inr nc)"
  by pat_completeness auto
termination
  by (relation "measure (\<lambda>(code, n, idx, i, nc). nat (n - i))") auto

declare index_loop.simps [simp del]

definition fockstate_index :: "fockstate \<Rightarrow> int \<Rightarrow> error + int" where
  "fockstate_index fs idx =
     (if idx < 0 \<or> idx \<ge> fs_m fs then Inl (out_of_range ''invalid mode'')
      else index_loop (fs_code fs) (fs_n fs) idx 0 0)"

text \<open>
  \<open>std::vector<int> fs_vect(_m); for (int i = 0; i < _n; i++) fs_vect[_code[i] - 65]++;\<close>
\<close>

function to_vect_loop :: "cchar list option \<Rightarrow> int \<Rightarrow> int \<Rightarrow> int list \<Rightarrow> error + int list" where
  "to_vect_loop code n i fs_vect =
     (if i < n then
        (case code of
           None \<Rightarrow> Inl null_dereference
         | Some cs \<Rightarrow>
             let k = char_to_int (cs ! nat i) - 65 in
             if k < 0 \<or> k \<ge> int (length fs_vect) then Inl out_of_bounds
             else to_vect_loop code n (i + 1) (fs_vect[nat k := fs_vect ! nat k + 1]))
      else Inr fs_vect)"
  by pat_completeness auto
termination
  by (relation "measure (\<lambda>(code, n, i, fs_vect). nat (n - i))") auto

declare to_vect_loop.simps [simp del]

definition to_vect :: "fockstate \<Rightarrow> error + int list" where
  "to_vect fs = to_vect_loop (fs_code fs) (fs_n fs) 0 (replicate (nat (fs_m fs)) 0)"

subsection \<open>Slices: \<open>_check_slice\<close>, \<open>slice\<close> and \<open>set_slice\<close>\<close>

text \<open>
  \<open>for (int i = start; i < end; i += step) slice_m++;\<close> With a step of zero the
  loop never comes to \<open>end\<close>; with a step below zero \<open>i\<close> runs down to the least
  \<open>int\<close> and wraps to the greatest.
\<close>

partial_function (option) slice_m_loop :: "int \<Rightarrow> int \<Rightarrow> int \<Rightarrow> int \<Rightarrow> int option" where
  "slice_m_loop i end step slice_m =
     (if i < end then slice_m_loop (wrap_int (i + step)) end step (wrap_int (slice_m + 1))
      else Some slice_m)"

declare slice_m_loop.simps [code]

text \<open>
  The test that \<open>_check_slice\<close> and \<open>slice\<close> share:
  \<open>_code[i] >= start + 'A' && _code[i] < end + 'A' &&
    (step == 1 || (_code[i] - start - 'A') % step == 0)\<close>.
  The remainder is only taken of a number that is not negative, and by then the
  loop above has returned, so the step is not zero.
\<close>

definition in_slice :: "int \<Rightarrow> int \<Rightarrow> int \<Rightarrow> cchar \<Rightarrow> bool" where
  "in_slice start end step c =
     (char_to_int c \<ge> start + 65 \<and> char_to_int c < end + 65 \<and>
      (step = 1 \<or> c_mod (char_to_int c - start - 65) step = 0))"

text \<open>\<open>for (int i = 0; i < _n; i++) if (...) slice_n++;\<close>\<close>

function slice_n_loop :: "cchar list \<Rightarrow> int \<Rightarrow> int \<Rightarrow> int \<Rightarrow> int \<Rightarrow> int \<Rightarrow> int \<Rightarrow> int" where
  "slice_n_loop code n start end step i slice_n =
     (if i < n then
        slice_n_loop code n start end step (i + 1)
          (if in_slice start end step (code ! nat i) then slice_n + 1 else slice_n)
      else slice_n)"
  by pat_completeness auto
termination
  by (relation "measure (\<lambda>(code, n, start, end, step, i, slice_n). nat (n - i))") auto

declare slice_n_loop.simps [simp del]

text \<open>
  \<open>_check_slice\<close> changes \<open>start\<close> and \<open>end\<close> in the caller and hands back the
  mode count and the particle count of the slice; when its first loop never
  leaves, neither does it.
\<close>

definition check_slice :: "fockstate \<Rightarrow> int \<Rightarrow> int \<Rightarrow> int \<Rightarrow> error + (int \<times> int \<times> int \<times> int)" where
  "check_slice fs start0 end0 step =
     (let start1 = (if start0 < 0 then start0 + fs_m fs else start0);
          end1 = (if end0 < 0 then end0 + fs_m fs else end0);
          start = (if start1 < 0 then 0 else start1);
          end2 = (if end1 < 0 then 0 else end1);
          end = (if end2 > fs_m fs then fs_m fs else end2)
      in case fs_code fs of
           None \<Rightarrow> Inl (invalid_argument ''cannot make operation on ndef-state'')
         | Some code \<Rightarrow>
             (case slice_m_loop start end step 0 of
                None \<Rightarrow> Inl nontermination
              | Some slice_m \<Rightarrow>
                  Inr (start, end, slice_m, slice_n_loop code (fs_n fs) start end step 0 0)))"

text \<open>
  The loop of \<open>slice\<close> that writes the new buffer:
  \<open>_new_code[k++] = (_code[i] - start - 'A') / step + 'A'\<close> for every particle of the
  slice.
\<close>

function slice_loop :: "cchar list \<Rightarrow> int \<Rightarrow> int \<Rightarrow> int \<Rightarrow> int \<Rightarrow> int \<Rightarrow> cchar list \<Rightarrow> cchar list" where
  "slice_loop code n start end step i new_code =
     (if i < n then
        slice_loop code n start end step (i + 1)
          (if in_slice start end step (code ! nat i)
           then new_code @ [int_to_char (c_div (char_to_int (code ! nat i) - start - 65) step + 65)]
           else new_code)
      else new_code)"
  by pat_completeness auto
termination
  by (relation "measure (\<lambda>(code, n, start, end, step, i, new_code). nat (n - i))") auto

declare slice_loop.simps [simp del]

definition slice :: "fockstate \<Rightarrow> int \<Rightarrow> int \<Rightarrow> int \<Rightarrow> error + fockstate" where
  "slice fs start0 end0 step =
     (case check_slice fs start0 end0 step of
        Inl e \<Rightarrow> Inl e
      | Inr (start, end, slice_m, slice_n) \<Rightarrow>
          if slice_n = 0 then fockstate_mn slice_m 0
          else Inr \<lparr>fs_m = slice_m, fs_n = slice_n,
                    fs_code = Some (slice_loop (the (fs_code fs)) (fs_n fs) start end step 0 [])\<rparr>)"

text \<open>
  The four loops of \<open>set_slice\<close>. The first copies the particles below \<open>start\<close>:
  \<open>for (; _code && i < _n && _code[i] < start + 'A'; i++) _new_code[k++] = _code[i];\<close>
\<close>

function lower_loop :: "cchar list \<Rightarrow> int \<Rightarrow> int \<Rightarrow> int \<Rightarrow> cchar list \<Rightarrow> int \<times> cchar list" where
  "lower_loop code n start i new_code =
     (if i < n \<and> char_to_int (code ! nat i) < start + 65
      then lower_loop code n start (i + 1) (new_code @ [code ! nat i])
      else (i, new_code))"
  by pat_completeness auto
termination
  by (relation "measure (\<lambda>(code, n, start, i, new_code). nat (n - i))") auto

text \<open>
  The second writes the particles of the replacement:
  \<open>for (int j = 0; j < fs._n; j++) _new_code[k++] = fs._code[j] + start;\<close>
  It reads \<open>fs._code\<close> without a look at it.
\<close>

function insert_loop :: "cchar list option \<Rightarrow> int \<Rightarrow> int \<Rightarrow> int \<Rightarrow> cchar list \<Rightarrow> error + cchar list" where
  "insert_loop fs_code' fs_n' start j new_code =
     (if j < fs_n' then
        (case fs_code' of
           None \<Rightarrow> Inl null_dereference
         | Some cs \<Rightarrow>
             insert_loop fs_code' fs_n' start (j + 1)
               (new_code @ [int_to_char (char_to_int (cs ! nat j) + start)]))
      else Inr new_code)"
  by pat_completeness auto
termination
  by (relation "measure (\<lambda>(fs_code', fs_n', start, j, new_code). nat (fs_n' - j))") auto

text \<open>The third steps over the old particles of the slice:
  \<open>for (; _code && i < _n && _code[i] < end + 'A'; i++);\<close>\<close>

function skip_loop :: "cchar list \<Rightarrow> int \<Rightarrow> int \<Rightarrow> int \<Rightarrow> int" where
  "skip_loop code n end i =
     (if i < n \<and> char_to_int (code ! nat i) < end + 65 then skip_loop code n end (i + 1) else i)"
  by pat_completeness auto
termination
  by (relation "measure (\<lambda>(code, n, end, i). nat (n - i))") auto

text \<open>The fourth copies the rest:
  \<open>for (; _code && i < _n; i++) _new_code[k++] = _code[i];\<close>\<close>

function upper_loop :: "cchar list \<Rightarrow> int \<Rightarrow> int \<Rightarrow> cchar list \<Rightarrow> cchar list" where
  "upper_loop code n i new_code =
     (if i < n then upper_loop code n (i + 1) (new_code @ [code ! nat i]) else new_code)"
  by pat_completeness auto
termination
  by (relation "measure (\<lambda>(code, n, i, new_code). nat (n - i))") auto

declare lower_loop.simps [simp del] insert_loop.simps [simp del]
  skip_loop.simps [simp del] upper_loop.simps [simp del]

definition set_slice :: "fockstate \<Rightarrow> fockstate \<Rightarrow> int \<Rightarrow> int \<Rightarrow> error + fockstate" where
  "set_slice this fs start0 end0 =
     (case check_slice this start0 end0 1 of
        Inl e \<Rightarrow> Inl e
      | Inr (start, end, slice_m, slice_n) \<Rightarrow>
          if slice_m \<noteq> fs_m fs then Inl (invalid_argument ''invalid fockstate to replace in slice'')
          else
            let new_n = fs_n this - slice_n + fs_n fs in
            if new_n = 0 then fockstate_mn (fs_m this) 0
            else if new_n < 0 then Inl bad_array_new_length
            else
              let code = the (fs_code this);
                  (i1, code1) = lower_loop code (fs_n this) start 0 []
              in case insert_loop (fs_code fs) (fs_n fs) start 0 code1 of
                   Inl e \<Rightarrow> Inl e
                 | Inr code2 \<Rightarrow>
                     let i2 = skip_loop code (fs_n this) end i1 in
                     Inr \<lparr>fs_m = fs_m this, fs_n = new_n,
                          fs_code = Some (upper_loop code (fs_n this) i2 code2)\<rparr>)"

subsection \<open>The invariants of a state\<close>

text \<open>
  The mode of a particle is what the code reads from its byte, \<open>_code[i] - 'A'\<close>.
  A state is well formed when its counts are not negative and, if it is defined,
  its buffer holds \<open>_n\<close> bytes, every particle is in a mode below \<open>_m\<close>, the modes
  do not decrease along the buffer, and the occupations that \<open>to_vect\<close> counts add
  up to \<open>_n\<close>. An undefined state has no buffer at all.
\<close>

definition mode_index :: "cchar \<Rightarrow> int" where
  "mode_index c = char_to_int c - 65"

text \<open>The byte of a particle in mode \<open>v\<close>, \<open>char(v + 'A')\<close>.\<close>

definition encode_mode :: "nat \<Rightarrow> cchar" where
  "encode_mode v = int_to_char (int v + 65)"

definition fs_inv :: "fockstate \<Rightarrow> bool" where
  "fs_inv fs =
     (0 \<le> fs_m fs \<and> 0 \<le> fs_n fs \<and>
      (case fs_code fs of
         None \<Rightarrow> True
       | Some code \<Rightarrow>
           length code = nat (fs_n fs) \<and>
           list_all (\<lambda>c. 0 \<le> mode_index c \<and> mode_index c < fs_m fs) code \<and>
           sorted (map mode_index code) \<and>
           (case to_vect fs of Inl e \<Rightarrow> False | Inr fs_vect \<Rightarrow> sum_list fs_vect = fs_n fs)))"

text \<open>
  The invariant set read for every state, defined or not: the particle count of
  an undefined state is to be the sum of its occupations as well, and an
  undefined state is to have no occupation vector. The occupations of a state
  are those that \<open>to_vect\<close> returns.
\<close>

definition spec_inv :: "fockstate \<Rightarrow> bool" where
  "spec_inv fs =
     (0 \<le> fs_m fs \<and> 0 \<le> fs_n fs \<and>
      (case to_vect fs of Inl e \<Rightarrow> False | Inr fs_vect \<Rightarrow> sum_list fs_vect = fs_n fs) \<and>
      (case fs_code fs of
         None \<Rightarrow> (case to_vect fs of Inl e \<Rightarrow> True | Inr fs_vect \<Rightarrow> False)
       | Some code \<Rightarrow>
           length code = nat (fs_n fs) \<and>
           list_all (\<lambda>c. 0 \<le> mode_index c \<and> mode_index c < fs_m fs) code \<and>
           sorted (map mode_index code)))"

subsection \<open>The indices of a slice\<close>

text \<open>
  The first five statements of \<open>_check_slice\<close> by themselves: they count a
  negative index from the mode count and bring both indices into range.
\<close>

definition slice_start :: "int \<Rightarrow> int \<Rightarrow> int" where
  "slice_start m start' =
     (let start1 = (if start' < 0 then start' + m else start') in if start1 < 0 then 0 else start1)"

definition slice_end :: "int \<Rightarrow> int \<Rightarrow> int" where
  "slice_end m end' =
     (let end1 = (if end' < 0 then end' + m else end');
          end2 = (if end1 < 0 then 0 else end1)
      in if end2 > m then m else end2)"

subsection \<open>The order of the enumeration\<close>

text \<open>
  The mode lists the successor runs through, without bytes: \<open>next_modes tp\<close> is the
  successor on lists of modes with top mode \<open>tp\<close>, and \<open>occ_enum lo n k\<close> lists the
  non-decreasing \<open>n\<close>-tuples over the \<open>k\<close> modes from \<open>lo\<close> on, in lexicographic
  order.
\<close>

fun next_modes :: "nat \<Rightarrow> nat list \<Rightarrow> nat list option" where
  "next_modes tp [] = None"
| "next_modes tp (v # xs) =
     (case next_modes tp xs of
        Some ys \<Rightarrow> Some (v # ys)
      | None \<Rightarrow> if v = tp then None else Some (replicate (Suc (length xs)) (Suc v)))"

fun occ_enum :: "nat \<Rightarrow> nat \<Rightarrow> nat \<Rightarrow> nat list list" where
  "occ_enum lo 0 k = [[]]"
| "occ_enum lo (Suc n) 0 = []"
| "occ_enum lo (Suc n) (Suc k) =
     map ((#) lo) (occ_enum lo n (Suc k)) @ occ_enum (Suc lo) (Suc n) k"

section \<open>The arithmetic of \<open>int\<close>\<close>

lemma wrap_int_id: "- 2147483648 \<le> i \<Longrightarrow> i < 2147483648 \<Longrightarrow> wrap_int i = i"
  by (simp add: wrap_int_def)





section \<open>Termination of the parser\<close>

lemma read_digits_length: "length (snd (read_digits cn s)) \<le> length s"
  by (induction s arbitrary: cn) (auto intro: le_SucI)

lemma read_digits_consumes:
  assumes "isdigit (peek s)"
  shows "length (snd (read_digits cn s)) < length s"
proof (cases s)
  case Nil
  with assms show ?thesis by (simp add: peek_def isdigit_def)
next
  case (Cons c t)
  with assms have "read_digits cn s = read_digits (wrap_int (10 * cn + (of_char c - 48))) t"
    by (simp add: peek_def)
  moreover have "length (snd (read_digits (wrap_int (10 * cn + (of_char c - 48))) t)) \<le> length t"
    by (rule read_digits_length)
  ultimately show ?thesis using Cons by simp
qed

lemma split_annot_length: "split_annot s = Some (sa, r) \<Longrightarrow> length r < length s"
proof (induction s arbitrary: sa r)
  case Nil
  then show ?case by simp
next
  case (Cons c s)
  then show ?case by (fastforce split: if_splits)
qed

lemma parse_subterm_length:
  assumes "parse_subterm annot str = Inr (cn, str')"
  shows "length str' \<le> length str"
    and "isdigit (peek str) \<or> peek str = CHR ''{'' \<Longrightarrow> length str' < length str"
proof -
  obtain cn1 str1 where r: "(if peek str = CHR ''{'' then (1, str) else read_digits 0 str) = (cn1, str1)"
    by (cases "if peek str = CHR ''{'' then (1, str) else read_digits 0 str") auto
  have le1: "length str1 \<le> length str"
    using r read_digits_length [of 0 str] by (auto split: if_splits)
  have lt1: "isdigit (peek str) \<Longrightarrow> peek str \<noteq> CHR ''{'' \<Longrightarrow> length str1 < length str"
    using r read_digits_consumes [of str 0] by (auto split: if_splits)
  show "length str' \<le> length str"
  proof (cases "peek str1 = CHR ''{''")
    case True
    then obtain sa where "split_annot (tl str1) = Some (sa, str')"
      using assms r by (auto simp: parse_subterm_def split: if_splits option.splits)
    from split_annot_length [OF this] have "length str' < length str1"
      by (cases str1) auto
    with le1 show ?thesis by simp
  next
    case False
    then have "str' = str1"
      using assms r by (auto simp: parse_subterm_def)
    with le1 show ?thesis by simp
  qed
  show "length str' < length str" if h: "isdigit (peek str) \<or> peek str = CHR ''{''"
  proof (cases "peek str1 = CHR ''{''")
    case True
    then obtain sa where "split_annot (tl str1) = Some (sa, str')"
      using assms r by (auto simp: parse_subterm_def split: if_splits option.splits)
    from split_annot_length [OF this] have "length str' < length str1"
      by (cases str1) auto
    with le1 show ?thesis by simp
  next
    case False
    then have e: "str' = str1"
      using assms r by (auto simp: parse_subterm_def)
    from False r have "peek str \<noteq> CHR ''{''"
      by (auto split: if_splits)
    with h lt1 e show ?thesis by simp
  qed
qed

termination parse_mode
  by (relation "measure (\<lambda>(annot, str, total_cn). length str)")
    (auto dest: parse_subterm_length(2))

declare parse_mode.simps [simp del]

lemma skip_blanks_length: "length (skip_blanks s) \<le> length s"
  by (induction s) auto

lemma parse_mode_length:
  "parse_mode annot str total_cn = Inr (str', tot) \<Longrightarrow> length str' \<le> length str"
proof (induction annot str total_cn rule: parse_mode.induct)
  case (1 annot str total_cn)
  show ?case
  proof (cases "isdigit (peek str) \<or> peek str = CHR ''{''")
    case False
    with "1.prems" show ?thesis by (simp add: parse_mode.simps)
  next
    case True
    with "1.prems" obtain cn str1 where
      s: "parse_subterm annot str = Inr (cn, str1)" and
      r: "parse_mode annot str1 (wrap_int (total_cn + (if 0 < cn then cn else 0))) = Inr (str', tot)"
      by (auto simp: parse_mode.simps [of annot str] split: sum.splits)
    from "1.IH" [OF True s refl r] have "length str' \<le> length str1" .
    with parse_subterm_length(1) [OF s] show ?thesis by simp
  qed
qed

lemma parse_mode_consumes:
  assumes "parse_mode annot str total_cn = Inr (str', tot)"
    and "isdigit (peek str) \<or> peek str = CHR ''{''"
  shows "length str' < length str"
proof -
  from assms obtain cn str1 where
    s: "parse_subterm annot str = Inr (cn, str1)" and
    r: "parse_mode annot str1 (wrap_int (total_cn + (if 0 < cn then cn else 0))) = Inr (str', tot)"
    by (auto simp: parse_mode.simps [of annot str] split: sum.splits)
  from parse_subterm_length(2) [OF s assms(2)] parse_mode_length [OF r]
  show ?thesis by simp
qed

termination parse_terms
proof (relation "measure (\<lambda>(annot, str0, fs_vect, n). length str0)", goal_cases)
  case 1
  show ?case by simp
next
  case (2 annot str0 fs_vect n str r str' total_cn)
  show ?case
  proof (cases "peek str = CHR '',''")
    case True
    with 2 have "length str' \<le> length (skip_blanks (tl str))"
      using parse_mode_length [of annot "skip_blanks (tl str)" 0 str' total_cn] by simp
    also have "\<dots> \<le> length (tl str)"
      by (rule skip_blanks_length)
    also have "\<dots> < length str"
    proof -
      from True have "str \<noteq> []" by (auto simp: peek_def)
      then show ?thesis by simp
    qed
    also have "\<dots> \<le> length str0"
      using 2 by (simp add: skip_blanks_length)
    finally show ?thesis by simp
  next
    case False
    with 2 have "isdigit (peek str) \<or> peek str = CHR ''{''"
      by (auto simp: isdigit_def)
    moreover from False 2 have "parse_mode annot str 0 = Inr (str', total_cn)"
      by simp
    ultimately have "length str' < length str"
      by (rule parse_mode_consumes [rotated])
    also have "\<dots> \<le> length str0"
      using 2 by (simp add: skip_blanks_length)
    finally show ?thesis by simp
  qed
qed

termination count_commas
proof (relation "measure (\<lambda>(str0, m). length str0)", goal_cases)
  case 1
  show ?case by simp
next
  case (2 str0 m str)
  then have "str \<noteq> []"
    by (auto simp: peek_def)
  then have "length (tl str) < length str"
    by simp
  also have "\<dots> \<le> length str0"
    using 2 by (simp add: skip_blanks_length)
  finally show ?case by simp
qed

declare parse_terms.simps [simp del] count_commas.simps [simp del]

section \<open>Parsing undefined states\<close>

lemma parse_terms_comma_first:
  "parse_terms annot (CHR '','' # s) [] 0 = Inr (CHR '','' # s, [], 0)"
  by (simp add: parse_terms.simps peek_def)

lemma count_commas_run:
  assumes "skip_blanks cls = cls" "peek cls \<noteq> CHR '',''"
  shows "count_commas (replicate k (CHR '','') @ cls) m = (cls, m + int k)"
proof (induction k arbitrary: m)
  case 0
  from assms show ?case by (simp add: count_commas.simps)
next
  case (Suc k)
  have "count_commas (replicate (Suc k) (CHR '','') @ cls) m
      = count_commas (replicate k (CHR '','') @ cls) (m + 1)"
    by (subst count_commas.simps) (simp add: peek_def)
  with Suc show ?case by simp
qed

text \<open>
  Claim C3, as the code has it: a text that is an opening delimiter, \<open>k \<ge> 1\<close> commas
  and the matching closing delimiter parses to the undefined state without
  particles whose mode count is \<open>k + 1\<close>. The count starts at one
  (\<open>_m = 1\<close>) and every comma adds one: commas separate modes.
\<close>

theorem parse_bare_commas:
  assumes "1 \<le> k"
    and "(opn, cls) \<in> {(CHR ''['', '']''), (CHR ''('', '')''), (CHR ''|'', ''>''),
           (CHR ''|'', [CHR 0xE3, CHR 0x80, CHR 0x89])}"
  shows "parse_str annot (opn # replicate k (CHR '','') @ cls)
           = Inr \<lparr>fs_m = int k + 1, fs_n = 0, fs_code = None\<rparr>"
proof -
  from assms(1) obtain j where k: "k = Suc j" by (cases k) auto
  have t: "parse_terms annot (replicate k (CHR '','') @ cls) [] 0
             = Inr (replicate k (CHR '','') @ cls, [], 0)"
    unfolding k by (simp add: parse_terms_comma_first)
  have p: "peek (replicate k (CHR '','') @ cls) = CHR '',''"
    unfolding k by (simp add: peek_def)
  have c: "count_commas (replicate k (CHR '','') @ cls) 1 = (cls, 1 + int k)"
    using assms(2) by (intro count_commas_run) (auto simp: peek_def)
  have o: "skip_blanks (opn # replicate k (CHR '','') @ cls) = opn # replicate k (CHR '','') @ cls"
    using assms(2) by auto
  have pk: "peek (opn # replicate k (CHR '','') @ cls) = opn"
    by (simp add: peek_def)
  have cl: "skip_blanks (if peek cls \<in> set ''>)]'' then tl cls else drop 3 cls) = []"
    using assms(2) by (auto simp: peek_def)
  have "parse_str annot (opn # replicate k (CHR '','') @ cls) =
      (if (opn = CHR ''['' \<and> peek cls \<noteq> CHR '']'') \<or>
          (opn = CHR ''('' \<and> peek cls \<noteq> CHR '')'') \<or>
          (opn = CHR ''|'' \<and> \<not> (peek cls = CHR ''>'' \<or> take 3 cls = [CHR 0xE3, CHR 0x80, CHR 0x89]))
       then Inl (invalid_argument ''invalid fock state representation (bad close)'')
       else Inr \<lparr>fs_m = 1 + int k, fs_n = 0, fs_code = None\<rparr>)"
    using assms(2) unfolding parse_str_def o pk Let_def
    by (simp only: list.sel t sum.case prod.case p c cl) (auto simp: peek_def)
  also have "\<dots> = Inr \<lparr>fs_m = 1 + int k, fs_n = 0, fs_code = None\<rparr>"
    using assms(2) by (auto simp: peek_def)
  finally show ?thesis by (simp add: add.commute)
qed

theorem parse_bare_commas_witness:
  "(1::nat) \<le> 2 \<and>
   parse_str (\<lambda>s. None) ''|,,>'' = Inr \<lparr>fs_m = 3, fs_n = 0, fs_code = None\<rparr>"
  using parse_bare_commas [of 2 "CHR ''|''" "''>''" "\<lambda>s. None"]
  by (simp add: numeral_2_eq_2)

text \<open>
  Claim C3 as stated gives the text with one comma one mode; the code gives it two.
\<close>

theorem one_comma_two_modes:
  "parse_str (\<lambda>s. None) ''|,>'' = Inr \<lparr>fs_m = 2, fs_n = 0, fs_code = None\<rparr> \<and>
   parse_str (\<lambda>s. None) ''|,>'' \<noteq> Inr \<lparr>fs_m = 1, fs_n = 0, fs_code = None\<rparr>"
  by (simp add: parse_str_def parse_terms.simps count_commas.simps peek_def)

text \<open>
  Claim C4: \<open>"|,,>"\<close> parses to the undefined state with three modes and no
  particle, \<open>"|0,0,0>"\<close> to the defined state with three modes and no particle, and
  \<open>operator==\<close> tells the two apart.
\<close>

theorem parse_undefined_not_zero_state:
  "parse_str annot ''|,,>'' = Inr \<lparr>fs_m = 3, fs_n = 0, fs_code = None\<rparr> \<and>
   parse_str annot ''|0,0,0>'' = Inr \<lparr>fs_m = 3, fs_n = 0, fs_code = Some []\<rparr> \<and>
   \<not> fockstate_eq \<lparr>fs_m = 3, fs_n = 0, fs_code = None\<rparr> \<lparr>fs_m = 3, fs_n = 0, fs_code = Some []\<rparr>"
proof (intro conjI)
  show "parse_str annot ''|,,>'' = Inr \<lparr>fs_m = 3, fs_n = 0, fs_code = None\<rparr>"
    by (simp add: parse_str_def parse_terms.simps count_commas.simps peek_def)
  show "parse_str annot ''|0,0,0>'' = Inr \<lparr>fs_m = 3, fs_n = 0, fs_code = Some []\<rparr>"
    by (simp add: parse_str_def parse_terms.simps parse_mode.simps parse_subterm_def
        count_commas.simps peek_def isdigit_def wrap_int_def)
  show "\<not> fockstate_eq \<lparr>fs_m = 3, fs_n = 0, fs_code = None\<rparr> \<lparr>fs_m = 3, fs_n = 0, fs_code = Some []\<rparr>"
    by (simp add: fockstate_eq_def)
qed

theorem parse_undefined_not_zero_state_witness:
  "parse_str (\<lambda>s. None) ''|,,>'' \<noteq> parse_str (\<lambda>s. None) ''|0,0,0>''"
  using parse_undefined_not_zero_state [of "\<lambda>s. None"] by simp

section \<open>Equality\<close>

text \<open>
  Claim C10: two states with no mode and no particle are equal whatever their
  buffers are; the state of the default constructor equals \<open>fockstate(0)\<close>.
\<close>

theorem eq_zero_modes:
  assumes "fs_m a = 0" "fs_n a = 0" "fs_m b = 0" "fs_n b = 0"
  shows "fockstate_eq a b"
  using assms by (simp add: fockstate_eq_def)

theorem eq_zero_modes_witness:
  "fs_m fockstate_default = 0 \<and> fs_n fockstate_default = 0 \<and>
   fs_m (fockstate_m 0) = 0 \<and> fs_n (fockstate_m 0) = 0 \<and>
   fs_code fockstate_default = None \<and> fs_code (fockstate_m 0) = Some [] \<and>
   fockstate_eq fockstate_default (fockstate_m 0)"
  using eq_zero_modes [of fockstate_default "fockstate_m 0"]
  by (simp add: fockstate_default_def fockstate_m_def)

lemma eq_loop_iff:
  assumes "0 \<le> i" "nat n \<le> length ca" "nat n \<le> length cb"
  shows "eq_loop ca cb i n \<longleftrightarrow> drop (nat i) (take (nat n) ca) = drop (nat i) (take (nat n) cb)"
  using assms
proof (induction ca cb i n rule: eq_loop.induct)
  case (1 ca cb i n)
  show ?case
  proof (cases "i < n")
    case False
    then show ?thesis using "1.prems" by (subst eq_loop.simps) simp
  next
    case True
    with "1.prems" have l: "nat i < length (take (nat n) ca)" "nat i < length (take (nat n) cb)"
      by auto
    have s: "nat (i + 1) = Suc (nat i)" using "1.prems" by simp
    have a: "drop (nat i) (take (nat n) ca) = ca ! nat i # drop (nat (i + 1)) (take (nat n) ca)"
      using Cons_nth_drop_Suc [OF l(1)] l True "1.prems" by (simp add: s)
    have b: "drop (nat i) (take (nat n) cb) = cb ! nat i # drop (nat (i + 1)) (take (nat n) cb)"
      using Cons_nth_drop_Suc [OF l(2)] l True "1.prems" by (simp add: s)
    show ?thesis
    proof (cases "ca ! nat i = cb ! nat i")
      case False
      then show ?thesis using True by (subst eq_loop.simps) (simp add: a b)
    next
      case eq: True
      have "eq_loop ca cb i n = eq_loop ca cb (i + 1) n"
        using True eq by (subst eq_loop.simps) simp
      also have "\<dots> \<longleftrightarrow> drop (nat (i + 1)) (take (nat n) ca) = drop (nat (i + 1)) (take (nat n) cb)"
        using "1.IH" [OF True] eq "1.prems" by simp
      finally show ?thesis using eq by (simp add: a b)
    qed
  qed
qed

lemma fs_inv_no_modes:
  assumes "fs_inv fs" "fs_code fs = Some code" "fs_m fs = 0"
  shows "code = []"
proof (cases code)
  case Nil
  then show ?thesis .
next
  case (Cons x xs)
  with assms have "0 \<le> mode_index x \<and> mode_index x < 0"
    by (simp add: fs_inv_def)
  then show ?thesis by linarith
qed

lemma fockstate_eq_defined:
  assumes "fs_inv a" "fs_inv b" "fs_code a = Some ca" "fs_code b = Some cb"
  shows "fockstate_eq a b = (fs_m a = fs_m b \<and> fs_n a = fs_n b \<and> ca = cb)"
proof -
  from assms have la: "length ca = nat (fs_n a)" and lb: "length cb = nat (fs_n b)"
    by (auto simp: fs_inv_def)
  show ?thesis
  proof (cases "fs_m a = fs_m b \<and> fs_n a = fs_n b")
    case False
    then show ?thesis by (auto simp: fockstate_eq_def)
  next
    case mn: True
    show ?thesis
    proof (cases "fs_m a = 0")
      case True
      from fs_inv_no_modes [OF assms(1,3) True] fs_inv_no_modes [OF assms(2,4)] True mn
      have "ca = []" "cb = []"
        by simp_all
      with True mn assms(3,4) show ?thesis by (simp add: fockstate_eq_def)
    next
      case False
      have "eq_loop ca cb 0 (fs_n a) \<longleftrightarrow> ca = cb"
        using eq_loop_iff [of 0 "fs_n a" ca cb] la lb mn by simp
      with False mn assms(3,4) show ?thesis by (simp add: fockstate_eq_def)
    qed
  qed
qed

text \<open>
  Claim C5, as the code has it, for well-formed states: two undefined states are
  equal exactly when their mode counts and their particle counts are the same;
  two defined states are equal exactly when their mode counts, their particle
  counts and their buffers are the same.
\<close>

theorem fockstate_eq_iff:
  assumes "fs_inv a" "fs_inv b"
  shows "(fs_code a = None \<and> fs_code b = None \<longrightarrow>
            fockstate_eq a b = (fs_m a = fs_m b \<and> fs_n a = fs_n b)) \<and>
         (fs_code a \<noteq> None \<and> fs_code b \<noteq> None \<longrightarrow>
            fockstate_eq a b = (fs_m a = fs_m b \<and> fs_n a = fs_n b \<and> fs_code a = fs_code b))"
proof (intro conjI impI)
  assume "fs_code a = None \<and> fs_code b = None"
  then show "fockstate_eq a b = (fs_m a = fs_m b \<and> fs_n a = fs_n b)"
    by (auto simp: fockstate_eq_def)
next
  assume "fs_code a \<noteq> None \<and> fs_code b \<noteq> None"
  then obtain ca cb where c: "fs_code a = Some ca" "fs_code b = Some cb"
    by auto
  from fockstate_eq_defined [OF assms c] c
  show "fockstate_eq a b = (fs_m a = fs_m b \<and> fs_n a = fs_n b \<and> fs_code a = fs_code b)"
    by simp
qed

theorem fockstate_eq_iff_witness:
  "fs_inv \<lparr>fs_m = 3, fs_n = 2, fs_code = Some [65, 66]\<rparr> \<and>
   fs_inv \<lparr>fs_m = 3, fs_n = 2, fs_code = Some [65, 67]\<rparr> \<and>
   \<not> fockstate_eq \<lparr>fs_m = 3, fs_n = 2, fs_code = Some [65, 66]\<rparr>
                   \<lparr>fs_m = 3, fs_n = 2, fs_code = Some [65, 67]\<rparr> \<and>
   fs_inv \<lparr>fs_m = 3, fs_n = 0, fs_code = None\<rparr> \<and>
   fockstate_eq \<lparr>fs_m = 3, fs_n = 0, fs_code = None\<rparr> \<lparr>fs_m = 3, fs_n = 0, fs_code = None\<rparr>"
proof -
  have a: "fs_inv \<lparr>fs_m = 3, fs_n = 2, fs_code = Some [65, 66]\<rparr>"
    by code_simp
  have b: "fs_inv \<lparr>fs_m = 3, fs_n = 2, fs_code = Some [65, 67]\<rparr>"
    by code_simp
  have u: "fs_inv \<lparr>fs_m = 3, fs_n = 0, fs_code = None\<rparr>"
    by (simp add: fs_inv_def)
  from fockstate_eq_iff [OF a b] fockstate_eq_iff [OF u u] a b u show ?thesis
    by simp
qed

text \<open>
  Claim C5 as stated lets two undefined states be equal only when they have no
  mode; the undefined state with three modes equals itself.
\<close>

theorem undefined_states_compare_equal:
  "fockstate_eq \<lparr>fs_m = 3, fs_n = 0, fs_code = None\<rparr> \<lparr>fs_m = 3, fs_n = 0, fs_code = None\<rparr>"
  by (simp add: fockstate_eq_def)

section \<open>Bytes and modes\<close>

lemma char_to_int_to_char:
  "- 128 \<le> i \<Longrightarrow> i < 128 \<Longrightarrow> char_to_int (int_to_char i) = i"
  by (simp add: char_to_int_def int_to_char_def signed_of_int signed_take_bit_int_eq_self)

lemma int_to_char_to_int [simp]: "int_to_char (char_to_int c) = c"
  by (simp add: char_to_int_def int_to_char_def)

lemma int_to_char_add: "int_to_char (char_to_int c + k) = c + int_to_char k"
  by (simp add: char_to_int_def int_to_char_def)

lemma char_to_int_range: "- 128 \<le> char_to_int c" "char_to_int c < 128"
  using sint_range_size [of c] by (simp_all add: char_to_int_def word_size)

lemma char_to_int_inject: "char_to_int a = char_to_int b \<longleftrightarrow> a = b"
  by (auto simp: char_to_int_def intro: signed_word_eqI)

lemma char_to_int_encode: "v \<le> 62 \<Longrightarrow> char_to_int (encode_mode v) = int v + 65"
  by (simp add: encode_mode_def char_to_int_to_char)

lemma mode_index_encode: "v \<le> 62 \<Longrightarrow> mode_index (encode_mode v) = int v"
  by (simp add: mode_index_def char_to_int_encode)

lemma encode_mode_Suc: "int_to_char (char_to_int (encode_mode v) + 1) = encode_mode (Suc v)"
  by (simp add: encode_mode_def int_to_char_add) (simp add: int_to_char_def)

lemma encode_mode_inject:
  assumes "v \<le> 62" "w \<le> 62"
  shows "encode_mode v = encode_mode w \<longleftrightarrow> v = w"
proof
  assume "encode_mode v = encode_mode w"
  then have "char_to_int (encode_mode v) = char_to_int (encode_mode w)"
    by (rule arg_cong)
  with assms show "v = w"
    by (simp only: char_to_int_encode)
qed simp

lemma map_encode_mode_inject:
  assumes "\<forall>x\<in>set xs. x \<le> 62" "\<forall>y\<in>set ys. y \<le> 62"
  shows "map encode_mode xs = map encode_mode ys \<longleftrightarrow> xs = ys"
proof
  assume e: "map encode_mode xs = map encode_mode ys"
  then have l: "length xs = length ys" by (rule map_eq_imp_length_eq)
  show "xs = ys"
  proof (rule nth_equalityI [OF l])
    fix i assume i: "i < length xs"
    from e have "map encode_mode xs ! i = map encode_mode ys ! i"
      by simp
    with i l have "encode_mode (xs ! i) = encode_mode (ys ! i)"
      by simp
    moreover have "xs ! i \<le> 62" "ys ! i \<le> 62"
      using assms i l by auto
    ultimately show "xs ! i = ys ! i"
      by (simp add: encode_mode_inject)
  qed
qed simp


subsection \<open>Building the invariant\<close>

lemma sum_list_bump:
  fixes v :: "int list"
  shows "k < length v \<Longrightarrow> sum_list (v[k := v ! k + d]) = sum_list v + d"
proof (induction v arbitrary: k)
  case Nil
  then show ?case by simp
next
  case (Cons x v)
  then show ?case by (cases k) auto
qed

lemma to_vect_loop_sum:
  assumes "\<forall>c\<in>set cs. 0 \<le> mode_index c \<and> mode_index c < int (length v)"
    and "0 \<le> i" "i \<le> n" "nat n \<le> length cs"
  shows "\<exists>v'. to_vect_loop (Some cs) n i v = Inr v' \<and> length v' = length v \<and>
              sum_list v' = sum_list v + (n - i)"
  using assms
proof (induction "Some cs" n i v rule: to_vect_loop.induct)
  case (1 n i v)
  show ?case
  proof (cases "i < n")
    case False
    with "1.prems" show ?thesis by (subst to_vect_loop.simps) simp
  next
    case True
    let ?k = "char_to_int (cs ! nat i) - 65"
    from True "1.prems" have "cs ! nat i \<in> set cs" by simp
    with "1.prems"(1) have k: "0 \<le> ?k" "?k < int (length v)"
      by (auto simp: mode_index_def)
    let ?v = "v[nat ?k := v ! nat ?k + 1]"
    have "\<exists>v'. to_vect_loop (Some cs) n (i + 1) ?v = Inr v' \<and> length v' = length ?v \<and>
              sum_list v' = sum_list ?v + (n - (i + 1))"
    proof (rule "1.hyps" [OF True refl refl])
      show "\<not> (?k < 0 \<or> int (length v) \<le> ?k)" using k by simp
      show "\<forall>c\<in>set cs. 0 \<le> mode_index c \<and> mode_index c < int (length ?v)"
        using "1.prems"(1) by simp
    qed (use True "1.prems" in auto)
    then obtain v' where v': "to_vect_loop (Some cs) n (i + 1) ?v = Inr v'" "length v' = length v"
      "sum_list v' = sum_list ?v + (n - (i + 1))"
      by auto
    have "sum_list ?v = sum_list v + 1"
      using k by (intro sum_list_bump) simp
    with v' have "sum_list v' = sum_list v + (n - i)" by simp
    moreover have "to_vect_loop (Some cs) n i v = to_vect_loop (Some cs) n (i + 1) ?v"
      using True k by (subst to_vect_loop.simps) (simp add: Let_def)
    ultimately show ?thesis using v' by simp
  qed
qed

lemma fs_inv_intro:
  assumes "fs_code fs = Some code" "0 \<le> fs_m fs" "0 \<le> fs_n fs" "length code = nat (fs_n fs)"
    and "\<forall>c\<in>set code. 0 \<le> mode_index c \<and> mode_index c < fs_m fs"
    and "sorted (map mode_index code)"
  shows "fs_inv fs"
proof -
  have "\<exists>v'. to_vect_loop (Some code) (fs_n fs) 0 (replicate (nat (fs_m fs)) 0) = Inr v' \<and>
          length v' = length (replicate (nat (fs_m fs)) (0::int)) \<and>
          sum_list v' = sum_list (replicate (nat (fs_m fs)) 0) + (fs_n fs - 0)"
    using assms by (intro to_vect_loop_sum) auto
  then obtain v' where "to_vect fs = Inr v'" "sum_list v' = fs_n fs"
    using assms(1) by (auto simp: to_vect_def sum_list_replicate)
  with assms show ?thesis
    by (simp add: fs_inv_def list_all_iff)
qed

lemma fs_inv_modes:
  assumes "\<forall>x\<in>set xs. int x < m" "m \<le> 63" "sorted xs" "n = int (length xs)" "0 \<le> m"
  shows "fs_inv \<lparr>fs_m = m, fs_n = n, fs_code = Some (map encode_mode xs)\<rparr>"
proof (rule fs_inv_intro)
  have le: "x \<le> 62" if "x \<in> set xs" for x
    using assms(1,2) that by fastforce
  show "\<forall>c\<in>set (map encode_mode xs). 0 \<le> mode_index c \<and>
          mode_index c < fs_m \<lparr>fs_m = m, fs_n = n, fs_code = Some (map encode_mode xs)\<rparr>"
    using assms(1) le by (auto simp: mode_index_encode)
  have "map mode_index (map encode_mode xs) = map int xs"
    using le by (simp add: mode_index_encode)
  then show "sorted (map mode_index (map encode_mode xs))"
    using assms(3) by (simp add: sorted_map mono_def sorted_wrt_iff_nth_less) 
qed (use assms in auto)

section \<open>The successor\<close>

subsection \<open>The loops of \<open>operator++\<close>\<close>

lemma scan_last_spec:
  assumes "- 1 \<le> i"
  shows "- 1 \<le> scan_last m code i \<and> scan_last m code i \<le> i \<and>
         (\<forall>j. scan_last m code i < j \<and> j \<le> i \<longrightarrow> char_to_int (code ! nat j) = m - 1 + 65) \<and>
         (0 \<le> scan_last m code i \<longrightarrow> char_to_int (code ! nat (scan_last m code i)) \<noteq> m - 1 + 65)"
  using assms
proof (induction m code i rule: scan_last.induct)
  case (1 m code i)
  show ?case
  proof (cases "i \<ge> 0 \<and> char_to_int (code ! nat i) = m - 1 + 65")
    case False
    then have "scan_last m code i = i" by (subst scan_last.simps) auto
    with False "1.prems" show ?thesis by auto
  next
    case True
    then have e: "scan_last m code i = scan_last m code (i - 1)"
      by (subst scan_last.simps) simp
    from True have "- 1 \<le> i - 1" by simp
    from "1.IH" [OF True this] have ih:
      "- 1 \<le> scan_last m code (i - 1)" "scan_last m code (i - 1) \<le> i - 1"
      "\<And>j. scan_last m code (i - 1) < j \<Longrightarrow> j \<le> i - 1 \<Longrightarrow> char_to_int (code ! nat j) = m - 1 + 65"
      "0 \<le> scan_last m code (i - 1) \<Longrightarrow>
         char_to_int (code ! nat (scan_last m code (i - 1))) \<noteq> m - 1 + 65"
      by auto
    have "char_to_int (code ! nat j) = m - 1 + 65" if "scan_last m code (i - 1) < j" "j \<le> i" for j
    proof (cases "j = i")
      case True
      with \<open>i \<ge> 0 \<and> char_to_int (code ! nat i) = m - 1 + 65\<close> show ?thesis by simp
    next
      case False
      with that ih(3) [of j] show ?thesis by simp
    qed
    with ih show ?thesis unfolding e by auto
  qed
qed

lemma reset_after_eq:
  assumes "0 \<le> i" "i < j" "j \<le> n" "length code = nat n"
  shows "reset_after code i j n = take (nat j) code @ replicate (nat (n - j)) (code ! nat i)"
  using assms
proof (induction code i j n rule: reset_after.induct)
  case (1 code i j n)
  show ?case
  proof (cases "j < n")
    case False
    with "1.prems" show ?thesis by (subst reset_after.simps) simp
  next
    case True
    let ?code = "code[nat j := code ! nat i]"
    have "reset_after code i j n = reset_after ?code i (j + 1) n"
      using True by (subst reset_after.simps) simp
    also have "\<dots> = take (nat (j + 1)) ?code @ replicate (nat (n - (j + 1))) (?code ! nat i)"
      using "1.prems" True by (intro "1.IH") auto
    also have "?code ! nat i = code ! nat i"
      using "1.prems" by simp
    also have "take (nat (j + 1)) ?code = take (nat j) code @ [code ! nat i]"
    proof -
      have "nat (j + 1) = Suc (nat j)" using "1.prems" by simp
      moreover have "nat j < length ?code" using "1.prems" True by simp
      ultimately show ?thesis
        by (simp add: take_Suc_conv_app_nth)
    qed
    also have "(take (nat j) code @ [code ! nat i]) @ replicate (nat (n - (j + 1))) (code ! nat i)
        = take (nat j) code @ replicate (nat (n - j)) (code ! nat i)"
    proof -
      have "nat (n - j) = Suc (nat (n - (j + 1)))" using True by simp
      then show ?thesis by simp
    qed
    finally show ?thesis .
  qed
qed

text \<open>What operator++ does to a defined state, by the index the scan stops at.\<close>

lemma fockstate_incr_defined:
  assumes "fs_code fs = Some code" "length code = nat (fs_n fs)"
  defines "i \<equiv> scan_last (fs_m fs) code (fs_n fs - 1)"
  shows "fockstate_incr fs =
           (if i < 0 then Inr (fs\<lparr>fs_code := None\<rparr>)
            else Inr (fs\<lparr>fs_code := Some (take (nat i) code @
                   replicate (nat (fs_n fs - i)) (int_to_char (char_to_int (code ! nat i) + 1)))\<rparr>))"
proof (cases "i < 0")
  case True
  then show ?thesis using assms(1) by (simp add: fockstate_incr_def i_def)
next
  case False
  have n0: "0 \<le> fs_n fs - 1"
  proof (rule ccontr)
    assume "\<not> 0 \<le> fs_n fs - 1"
    then have "scan_last (fs_m fs) code (fs_n fs - 1) = fs_n fs - 1"
      by (subst scan_last.simps) auto
    with False \<open>\<not> 0 \<le> fs_n fs - 1\<close> show False
      unfolding i_def by simp
  qed
  then have b: "- 1 \<le> i" "i \<le> fs_n fs - 1"
    using scan_last_spec [of "fs_n fs - 1" "fs_m fs" code]
    unfolding i_def by auto
  let ?v = "int_to_char (char_to_int (code ! nat i) + 1)"
  let ?code1 = "code[nat i := ?v]"
  have "reset_after ?code1 i (i + 1) (fs_n fs)
      = take (nat (i + 1)) ?code1 @ replicate (nat (fs_n fs - (i + 1))) (?code1 ! nat i)"
    using False b assms(2) by (intro reset_after_eq) auto
  also have "?code1 ! nat i = ?v"
    using False b assms(2) by simp
  also have "take (nat (i + 1)) ?code1 = take (nat i) code @ [?v]"
  proof -
    have "nat (i + 1) = Suc (nat i)" using False by simp
    moreover have "nat i < length ?code1" using False b assms(2) by simp
    ultimately show ?thesis by (simp add: take_Suc_conv_app_nth)
  qed
  also have "(take (nat i) code @ [?v]) @ replicate (nat (fs_n fs - (i + 1))) ?v
      = take (nat i) code @ replicate (nat (fs_n fs - i)) ?v"
  proof -
    have "nat (fs_n fs - i) = Suc (nat (fs_n fs - (i + 1)))" using b by simp
    then show ?thesis by simp
  qed
  finally show ?thesis
    using False assms(1) by (simp add: fockstate_incr_def i_def Let_def)
qed

subsection \<open>Non-decreasing tuples in lexicographic order\<close>

lemma next_modes_None_iff: "next_modes tp xs = None \<longleftrightarrow> (\<forall>x\<in>set xs. x = tp)"
  by (induction xs) (auto split: option.splits)

lemma next_modes_last_index:
  assumes "i < length xs" "xs ! i \<noteq> tp" "\<forall>j. i < j \<and> j < length xs \<longrightarrow> xs ! j = tp"
  shows "next_modes tp xs = Some (take i xs @ replicate (length xs - i) (Suc (xs ! i)))"
  using assms
proof (induction xs arbitrary: i)
  case Nil
  then show ?case by simp
next
  case (Cons v xs)
  show ?case
  proof (cases i)
    case 0
    have "\<forall>x\<in>set xs. x = tp"
    proof
      fix x assume "x \<in> set xs"
      then obtain j where "j < length xs" "xs ! j = x" by (auto simp: in_set_conv_nth)
      with Cons.prems(3) [rule_format, of "Suc j"] 0 show "x = tp" by simp
    qed
    then have "next_modes tp xs = None" by (simp add: next_modes_None_iff)
    with 0 Cons.prems(2) show ?thesis by simp
  next
    case (Suc i')
    have "next_modes tp xs = Some (take i' xs @ replicate (length xs - i') (Suc (xs ! i')))"
    proof (rule Cons.IH)
      show "i' < length xs" using Cons.prems(1) Suc by simp
      show "xs ! i' \<noteq> tp" using Cons.prems(2) Suc by simp
      show "\<forall>j. i' < j \<and> j < length xs \<longrightarrow> xs ! j = tp"
        using Cons.prems(3) [rule_format, of "Suc j" for j] Suc by simp
    qed
    with Suc show ?thesis by simp
  qed
qed

lemma length_occ_enum:
  "length (occ_enum lo n k) = (if k = 0 then (if n = 0 then 1 else 0) else (n + k - 1) choose n)"
proof (induction lo n k rule: occ_enum.induct)
  case (1 lo k)
  then show ?case by simp
next
  case (2 lo n)
  then show ?case by simp
next
  case (3 lo n k)
  show ?case
  proof (cases k)
    case 0
    with 3 show ?thesis by simp
  next
    case (Suc k')
    with 3 show ?thesis by simp
  qed
qed

lemma set_occ_enum:
  "set (occ_enum lo n k) = {xs. length xs = n \<and> sorted xs \<and> set xs \<subseteq> {lo..<lo + k}}"
proof (induction lo n k rule: occ_enum.induct)
  case (1 lo k)
  then show ?case by auto
next
  case (2 lo n)
  then show ?case by (auto simp: length_Suc_conv)
next
  case (3 lo n k)
  show ?case
  proof (intro equalityI subsetI)
    fix xs assume "xs \<in> set (occ_enum lo (Suc n) (Suc k))"
    then consider ys where "xs = lo # ys" "ys \<in> set (occ_enum lo n (Suc k))"
      | "xs \<in> set (occ_enum (Suc lo) (Suc n) k)"
      by auto
    then show "xs \<in> {xs. length xs = Suc n \<and> sorted xs \<and> set xs \<subseteq> {lo..<lo + Suc k}}"
    proof cases
      case 1
      with "3.IH"(1) show ?thesis by auto
    next
      case 2
      with "3.IH"(2) show ?thesis by auto
    qed
  next
    fix xs assume "xs \<in> {xs. length xs = Suc n \<and> sorted xs \<and> set xs \<subseteq> {lo..<lo + Suc k}}"
    then obtain x ys where xs: "xs = x # ys" and l: "length ys = n" and s: "sorted (x # ys)"
      and r: "set (x # ys) \<subseteq> {lo..<lo + Suc k}"
      by (auto simp: length_Suc_conv)
    show "xs \<in> set (occ_enum lo (Suc n) (Suc k))"
    proof (cases "x = lo")
      case True
      with l s r have "ys \<in> set (occ_enum lo n (Suc k))"
        unfolding "3.IH"(1) by auto
      with True xs show ?thesis by simp
    next
      case False
      with s r have "set (x # ys) \<subseteq> {Suc lo..<Suc lo + k}"
        by fastforce
      with l s have "xs \<in> set (occ_enum (Suc lo) (Suc n) k)"
        unfolding "3.IH"(2) xs by simp
      then show ?thesis by simp
    qed
  qed
qed

lemma distinct_occ_enum: "distinct (occ_enum lo n k)"
proof (induction lo n k rule: occ_enum.induct)
  case (3 lo n k)
  have "set (map ((#) lo) (occ_enum lo n (Suc k))) \<inter> set (occ_enum (Suc lo) (Suc n) k) = {}"
    by (auto simp: set_occ_enum)
  with 3 show ?case by (simp add: distinct_map)
qed simp_all


lemma occ_enum_nonempty: "0 < k \<Longrightarrow> occ_enum lo n k \<noteq> []"
proof -
  assume "0 < k"
  then have "replicate n lo \<in> set (occ_enum lo n k)"
    by (auto simp: set_occ_enum sorted_replicate)
  then show ?thesis by auto
qed

lemma hd_occ_enum: "0 < k \<Longrightarrow> hd (occ_enum lo n k) = replicate n lo"
proof (induction lo n k rule: occ_enum.induct)
  case (3 lo n k)
  have "occ_enum lo n (Suc k) \<noteq> []" by (rule occ_enum_nonempty) simp
  with 3 show ?case by (simp add: hd_map)
qed simp_all

lemma last_occ_enum: "0 < k \<Longrightarrow> last (occ_enum lo n k) = replicate n (lo + k - 1)"
proof (induction lo n k rule: occ_enum.induct)
  case (3 lo n k)
  have ne: "occ_enum lo n (Suc k) \<noteq> []" by (rule occ_enum_nonempty) simp
  show ?case
  proof (cases k)
    case 0
    with 3 ne show ?thesis by (simp add: last_map)
  next
    case (Suc k')
    then have "occ_enum (Suc lo) (Suc n) k \<noteq> []" by (intro occ_enum_nonempty) simp
    with 3 Suc show ?thesis by simp
  qed
qed simp_all

lemma next_modes_Cons: "next_modes tp xs = Some ys \<Longrightarrow> next_modes tp (v # xs) = Some (v # ys)"
  by simp

lemma next_modes_all_top: "next_modes tp (replicate n tp) = None"
  by (simp add: next_modes_None_iff)

lemma occ_enum_chain:
  "0 < k \<Longrightarrow> successively (\<lambda>xs ys. next_modes (lo + k - 1) xs = Some ys) (occ_enum lo n k)"
proof (induction lo n k rule: occ_enum.induct)
  case (1 lo k)
  then show ?case by simp
next
  case (2 lo n)
  then show ?case by simp
next
  case (3 lo n k)
  let ?tp = "lo + Suc k - 1"
  let ?A = "occ_enum lo n (Suc k)"
  let ?B = "occ_enum (Suc lo) (Suc n) k"
  have ne: "?A \<noteq> []" by (rule occ_enum_nonempty) simp
  have a0: "successively (\<lambda>xs ys. next_modes ?tp xs = Some ys) ?A"
    using "3.IH"(1) by simp
  have a: "successively (\<lambda>xs ys. next_modes ?tp xs = Some ys) (map ((#) lo) ?A)"
    unfolding successively_map
    by (rule successively_mono [OF a0]) (simp del: next_modes.simps add: next_modes_Cons)
  show ?case
  proof (cases k)
    case 0
    with a show ?thesis by simp
  next
    case (Suc k')
    then have b: "successively (\<lambda>xs ys. next_modes ?tp xs = Some ys) ?B"
      using "3.IH"(2) by simp
    have neB: "?B \<noteq> []" using Suc by (intro occ_enum_nonempty) simp
    have "last (map ((#) lo) ?A) = lo # replicate n ?tp"
      using ne last_occ_enum [of "Suc k" lo n] by (simp add: last_map)
    moreover have "hd ?B = replicate (Suc n) (Suc lo)"
      using Suc by (intro hd_occ_enum) simp
    moreover have "next_modes ?tp (lo # replicate n ?tp) = Some (replicate (Suc n) (Suc lo))"
      using Suc by (simp add: next_modes_all_top)
    ultimately have "next_modes ?tp (last (map ((#) lo) ?A)) = Some (hd ?B)"
      by simp
    with a b show ?thesis
      by (simp add: successively_append_iff)
  qed
qed

subsection \<open>The successor on bytes and on modes\<close>

lemma fockstate_incr_modes:
  assumes "1 \<le> m" "m \<le> 63" "\<forall>x\<in>set xs. int x < m" "n = int (length xs)"
  shows "fockstate_incr \<lparr>fs_m = m, fs_n = n, fs_code = Some (map encode_mode xs)\<rparr>
       = Inr \<lparr>fs_m = m, fs_n = n, fs_code = map_option (map encode_mode) (next_modes (nat (m - 1)) xs)\<rparr>"
proof -
  let ?fs = "\<lparr>fs_m = m, fs_n = n, fs_code = Some (map encode_mode xs)\<rparr>"
  let ?code = "map encode_mode xs"
  define i where "i = scan_last m ?code (n - 1)"
  have tgt: "char_to_int (?code ! nat j) = m - 1 + 65 \<longleftrightarrow> xs ! nat j = nat (m - 1)"
    if "0 \<le> j" "j < n" for j
  proof -
    from that assms(4) have "nat j < length xs" by simp
    then have "xs ! nat j \<in> set xs" by simp
    with assms have "xs ! nat j \<le> 62" by fastforce
    with \<open>nat j < length xs\<close> assms(1) show ?thesis
      by (auto simp: char_to_int_encode)
  qed
  have sp: "- 1 \<le> i" "i \<le> n - 1"
    "\<And>j. i < j \<Longrightarrow> j \<le> n - 1 \<Longrightarrow> char_to_int (?code ! nat j) = m - 1 + 65"
    "0 \<le> i \<Longrightarrow> char_to_int (?code ! nat i) \<noteq> m - 1 + 65"
    using scan_last_spec [of "n - 1" m ?code] assms(4) unfolding i_def by auto
  have step: "fockstate_incr ?fs =
           (if i < 0 then Inr (?fs\<lparr>fs_code := None\<rparr>)
            else Inr (?fs\<lparr>fs_code := Some (take (nat i) ?code @
                   replicate (nat (n - i)) (int_to_char (char_to_int (?code ! nat i) + 1)))\<rparr>))"
    using fockstate_incr_defined [of ?fs ?code] assms(4) unfolding i_def by simp
  show ?thesis
  proof (cases "i < 0")
    case True
    have "\<forall>x\<in>set xs. x = nat (m - 1)"
    proof
      fix x assume "x \<in> set xs"
      then obtain k where k: "k < length xs" "xs ! k = x" by (auto simp: in_set_conv_nth)
      then have "i < int k" "int k \<le> n - 1" using True assms(4) by linarith+
      from sp(3) [OF this] have "char_to_int (?code ! nat (int k)) = m - 1 + 65" .
      with tgt [of "int k"] k assms(4) show "x = nat (m - 1)" by simp
    qed
    then have "next_modes (nat (m - 1)) xs = None"
      by (simp add: next_modes_None_iff)
    with True step show ?thesis by simp
  next
    case False
    then have i0: "0 \<le> i" "i < n" using sp by auto
    then have il: "nat i < length xs" using assms(4) by simp
    have a: "xs ! nat i \<noteq> nat (m - 1)"
      using sp(4) tgt [of i] i0 by simp
    have b: "\<forall>j. nat i < j \<and> j < length xs \<longrightarrow> xs ! j = nat (m - 1)"
    proof (intro allI impI)
      fix j assume j: "nat i < j \<and> j < length xs"
      then have "i < int j" "int j \<le> n - 1" using i0 assms(4) by linarith+
      from sp(3) [OF this] have "char_to_int (?code ! nat (int j)) = m - 1 + 65" .
      with tgt [of "int j"] j assms(4) show "xs ! j = nat (m - 1)" by simp
    qed
    have nx: "next_modes (nat (m - 1)) xs
        = Some (take (nat i) xs @ replicate (length xs - nat i) (Suc (xs ! nat i)))"
      using next_modes_last_index [OF il a b] .
    have "take (nat i) ?code @ replicate (nat (n - i)) (int_to_char (char_to_int (?code ! nat i) + 1))
        = map encode_mode (take (nat i) xs @ replicate (length xs - nat i) (Suc (xs ! nat i)))"
    proof -
      have "nat (n - i) = length xs - nat i" using i0 assms(4) by simp
      with il show ?thesis by (simp add: take_map encode_mode_Suc)
    qed
    with False step nx show ?thesis by simp
  qed
qed

lemma fockstate_incr_last_index:
  assumes "fs_code fs = Some code" "length code = nat (fs_n fs)" "0 \<le> i" "i < fs_n fs"
    and "char_to_int (code ! nat i) \<noteq> fs_m fs - 1 + 65"
    and "\<forall>j. i < j \<and> j < fs_n fs \<longrightarrow> char_to_int (code ! nat j) = fs_m fs - 1 + 65"
  shows "fockstate_incr fs = Inr (fs\<lparr>fs_code := Some (take (nat i) code @
           replicate (nat (fs_n fs - i)) (int_to_char (char_to_int (code ! nat i) + 1)))\<rparr>)"
proof -
  define r where "r = scan_last (fs_m fs) code (fs_n fs - 1)"
  have sp: "- 1 \<le> r" "r \<le> fs_n fs - 1"
    "\<And>j. r < j \<Longrightarrow> j \<le> fs_n fs - 1 \<Longrightarrow> char_to_int (code ! nat j) = fs_m fs - 1 + 65"
    "0 \<le> r \<Longrightarrow> char_to_int (code ! nat r) \<noteq> fs_m fs - 1 + 65"
    using scan_last_spec [of "fs_n fs - 1" "fs_m fs" code] assms(3,4) unfolding r_def by auto
  have "\<not> r < i"
    using sp(3) [of i] assms(4,5) by auto
  moreover have "\<not> i < r"
    using sp(2,4) assms(3,6) by auto
  ultimately have "r = i" by simp
  with fockstate_incr_defined [OF assms(1,2)] assms(3) show ?thesis
    unfolding r_def by simp
qed

lemma incr_times_enum:
  assumes "1 \<le> m" "m \<le> 63" "0 \<le> n"
    and "i < length (occ_enum 0 (nat n) (nat m))"
  shows "incr_times i \<lparr>fs_m = m, fs_n = n, fs_code = Some (replicate (nat n) (int_to_char 65))\<rparr>
       = Inr \<lparr>fs_m = m, fs_n = n, fs_code = Some (map encode_mode (occ_enum 0 (nat n) (nat m) ! i))\<rparr>"
  using assms(4)
proof (induction i)
  case 0
  have "occ_enum 0 (nat n) (nat m) ! 0 = hd (occ_enum 0 (nat n) (nat m))"
    using 0 by (simp add: hd_conv_nth)
  also have "\<dots> = replicate (nat n) 0"
    using assms(1) by (intro hd_occ_enum) simp
  finally show ?case by (simp add: encode_mode_def)
next
  case (Suc i)
  let ?L = "occ_enum 0 (nat n) (nat m)"
  from Suc.prems have "?L ! i \<in> set ?L" by simp
  then have el: "length (?L ! i) = nat n" "\<forall>x\<in>set (?L ! i). int x < m"
    by (auto simp: set_occ_enum)
  have "successively (\<lambda>xs ys. next_modes (0 + nat m - 1) xs = Some ys) ?L"
    using assms(1) by (intro occ_enum_chain) simp
  from successively_nth [OF this Suc.prems] assms(1)
  have nx: "next_modes (nat (m - 1)) (?L ! i) = Some (?L ! Suc i)"
    by (simp add: nat_diff_distrib)
  have "incr_times (Suc i) \<lparr>fs_m = m, fs_n = n, fs_code = Some (replicate (nat n) (int_to_char 65))\<rparr>
      = fockstate_incr \<lparr>fs_m = m, fs_n = n, fs_code = Some (map encode_mode (?L ! i))\<rparr>"
    using Suc by simp
  also have "\<dots> = Inr \<lparr>fs_m = m, fs_n = n,
      fs_code = map_option (map encode_mode) (next_modes (nat (m - 1)) (?L ! i))\<rparr>"
    using assms el by (intro fockstate_incr_modes) auto
  finally show ?case by (simp add: nx)
qed

lemma incr_times_enum_end:
  assumes "1 \<le> m" "m \<le> 63" "0 \<le> n"
  shows "incr_times (length (occ_enum 0 (nat n) (nat m)))
           \<lparr>fs_m = m, fs_n = n, fs_code = Some (replicate (nat n) (int_to_char 65))\<rparr>
       = Inr \<lparr>fs_m = m, fs_n = n, fs_code = None\<rparr>"
proof -
  let ?L = "occ_enum 0 (nat n) (nat m)"
  have ne: "?L \<noteq> []" using assms(1) by (intro occ_enum_nonempty) simp
  then obtain l where l: "length ?L = Suc l" by (cases ?L) auto
  have "?L ! l = last ?L" using ne l by (simp add: last_conv_nth)
  also have "\<dots> = replicate (nat n) (0 + nat m - 1)"
    using assms(1) by (intro last_occ_enum) simp
  finally have e: "?L ! l = replicate (nat n) (nat (m - 1))"
    using assms(1) by (simp add: nat_diff_distrib)
  have "incr_times (Suc l) \<lparr>fs_m = m, fs_n = n, fs_code = Some (replicate (nat n) (int_to_char 65))\<rparr>
      = fockstate_incr \<lparr>fs_m = m, fs_n = n, fs_code = Some (map encode_mode (?L ! l))\<rparr>"
    using incr_times_enum [OF assms, of l] l by simp
  also have "\<dots> = Inr \<lparr>fs_m = m, fs_n = n,
      fs_code = map_option (map encode_mode) (next_modes (nat (m - 1)) (?L ! l))\<rparr>"
    using assms unfolding e by (intro fockstate_incr_modes) auto
  also have "next_modes (nat (m - 1)) (?L ! l) = None"
    unfolding e by (rule next_modes_all_top)
  finally show ?thesis using l by simp
qed

lemma length_occ_enum_choose:
  assumes "1 \<le> m" "0 \<le> n"
  shows "length (occ_enum 0 (nat n) (nat m)) = nat (n + m - 1) choose nat (m - 1)"
proof -
  have "length (occ_enum 0 (nat n) (nat m)) = (nat n + nat m - 1) choose nat n"
    using assms by (simp add: length_occ_enum)
  also have "nat n + nat m - 1 = nat (n + m - 1)"
    using assms by linarith
  also have "nat (n + m - 1) choose nat n = nat (n + m - 1) choose (nat (n + m - 1) - nat n)"
    using assms by (intro binomial_symmetric) linarith
  also have "nat (n + m - 1) - nat n = nat (m - 1)"
    using assms by linarith
  finally show ?thesis .
qed

subsection \<open>The enumeration\<close>

text \<open>
  Claim C1, for the mode counts that fit the byte: \<open>1 \<le> m \<le> 63\<close> and \<open>n \<ge> 0\<close>.
  \<open>init\<close> is the state \<open>fockstate(m, n)\<close> with every particle in mode 0 and
  \<open>N = C(n + m - 1, m - 1)\<close>. The first \<open>N\<close> states of the iteration are defined and
  well formed; on each of them the successor adds one to the mode of the last
  particle that is not in mode \<open>m - 1\<close> and puts every later particle in that new
  mode; the \<open>N\<close>-th application gives the undefined state; no two of the \<open>N\<close> states
  are equal for \<open>operator==\<close>; and every non-decreasing \<open>n\<close>-tuple of modes below
  \<open>m\<close> is the buffer of exactly one of them.
\<close>

theorem successor_enumerates:
  fixes m n :: int
  assumes "1 \<le> m" "m \<le> 63" "0 \<le> n"
  defines "init \<equiv> \<lparr>fs_m = m, fs_n = n, fs_code = Some (replicate (nat n) (int_to_char 65))\<rparr>"
  defines "N \<equiv> nat (n + m - 1) choose nat (m - 1)"
  shows "fockstate_mn m n = Inr init \<and>
    (\<forall>k<N. \<exists>code. incr_times k init = Inr \<lparr>fs_m = m, fs_n = n, fs_code = Some code\<rparr> \<and>
        fs_inv \<lparr>fs_m = m, fs_n = n, fs_code = Some code\<rparr>) \<and>
    (\<forall>k<N. \<forall>code i.
        incr_times k init = Inr \<lparr>fs_m = m, fs_n = n, fs_code = Some code\<rparr> \<and>
        0 \<le> i \<and> i < n \<and> mode_index (code ! nat i) \<noteq> m - 1 \<and>
        (\<forall>j. i < j \<and> j < n \<longrightarrow> mode_index (code ! nat j) = m - 1) \<longrightarrow>
        incr_times (Suc k) init = Inr \<lparr>fs_m = m, fs_n = n, fs_code = Some (take (nat i) code @
           replicate (nat (n - i)) (int_to_char (char_to_int (code ! nat i) + 1)))\<rparr> \<and>
        mode_index (int_to_char (char_to_int (code ! nat i) + 1)) = mode_index (code ! nat i) + 1) \<and>
    incr_times N init = Inr \<lparr>fs_m = m, fs_n = n, fs_code = None\<rparr> \<and>
    (\<forall>j<N. \<forall>k<N. \<forall>a b. incr_times j init = Inr a \<and> incr_times k init = Inr b \<and> j \<noteq> k \<longrightarrow>
        \<not> fockstate_eq a b) \<and>
    (\<forall>ys. length ys = nat n \<and> sorted ys \<and> (\<forall>y\<in>set ys. int y < m) \<longrightarrow>
        (\<exists>!k. k < N \<and>
           incr_times k init = Inr \<lparr>fs_m = m, fs_n = n, fs_code = Some (map encode_mode ys)\<rparr>))"
proof -
  let ?L = "occ_enum 0 (nat n) (nat m)"
  have len: "length ?L = N"
    unfolding N_def using assms(1,3) by (rule length_occ_enum_choose)
  have st: "incr_times k init = Inr \<lparr>fs_m = m, fs_n = n, fs_code = Some (map encode_mode (?L ! k))\<rparr>"
    if "k < N" for k
    unfolding init_def using that len by (intro incr_times_enum assms) simp
  have el: "length (?L ! k) = nat n" "sorted (?L ! k)" "\<forall>x\<in>set (?L ! k). int x < m"
    "\<forall>x\<in>set (?L ! k). x \<le> 62" if "k < N" for k
  proof -
    from that len have "?L ! k \<in> set ?L" by simp
    then show "length (?L ! k) = nat n" "sorted (?L ! k)" "\<forall>x\<in>set (?L ! k). int x < m"
      by (auto simp: set_occ_enum)
    with assms(2) show "\<forall>x\<in>set (?L ! k). x \<le> 62" by fastforce
  qed
  have inv: "fs_inv \<lparr>fs_m = m, fs_n = n, fs_code = Some (map encode_mode (?L ! k))\<rparr>"
    if "k < N" for k
    using el [OF that] assms by (intro fs_inv_modes) auto
  have p1: "fockstate_mn m n = Inr init"
    using assms(3) by (simp add: fockstate_mn_def init_def)
  have p2: "\<forall>k<N. \<exists>code. incr_times k init = Inr \<lparr>fs_m = m, fs_n = n, fs_code = Some code\<rparr> \<and>
        fs_inv \<lparr>fs_m = m, fs_n = n, fs_code = Some code\<rparr>"
    using st inv by blast
  have p3: "incr_times (Suc k) init = Inr \<lparr>fs_m = m, fs_n = n, fs_code = Some (take (nat i) code @
           replicate (nat (n - i)) (int_to_char (char_to_int (code ! nat i) + 1)))\<rparr> \<and>
        mode_index (int_to_char (char_to_int (code ! nat i) + 1)) = mode_index (code ! nat i) + 1"
    if k: "k < N" and c: "incr_times k init = Inr \<lparr>fs_m = m, fs_n = n, fs_code = Some code\<rparr>"
      and i: "0 \<le> i" "i < n" and ne: "mode_index (code ! nat i) \<noteq> m - 1"
      and af: "\<forall>j. i < j \<and> j < n \<longrightarrow> mode_index (code ! nat j) = m - 1"
    for k code i
  proof
    let ?fs = "\<lparr>fs_m = m, fs_n = n, fs_code = Some code\<rparr>"
    from c st [OF k] have code: "code = map encode_mode (?L ! k)" by simp
    have "fockstate_incr ?fs = Inr (?fs\<lparr>fs_code := Some (take (nat i) code @
           replicate (nat (fs_n ?fs - i)) (int_to_char (char_to_int (code ! nat i) + 1)))\<rparr>)"
    proof (rule fockstate_incr_last_index)
      show "length code = nat (fs_n ?fs)" using code el(1) [OF k] by simp
      show "char_to_int (code ! nat i) \<noteq> fs_m ?fs - 1 + 65"
        using ne by (simp add: mode_index_def)
      show "\<forall>j. i < j \<and> j < fs_n ?fs \<longrightarrow> char_to_int (code ! nat j) = fs_m ?fs - 1 + 65"
        using af by (simp add: mode_index_def)
    qed (use i in auto)
    with c show "incr_times (Suc k) init = Inr \<lparr>fs_m = m, fs_n = n, fs_code = Some (take (nat i) code @
           replicate (nat (n - i)) (int_to_char (char_to_int (code ! nat i) + 1)))\<rparr>"
      by simp
    have il: "nat i < length (?L ! k)" using i el(1) [OF k] by simp
    then have ci: "code ! nat i = encode_mode (?L ! k ! nat i)" using code by simp
    from il have mem: "?L ! k ! nat i \<in> set (?L ! k)" by simp
    with el(3,4) [OF k] have b: "int (?L ! k ! nat i) < m" "?L ! k ! nat i \<le> 62" by auto
    with ne ci have "int (?L ! k ! nat i) \<noteq> m - 1" by (simp add: mode_index_encode)
    with b assms(2) have "Suc (?L ! k ! nat i) \<le> 62" by linarith
    with b show "mode_index (int_to_char (char_to_int (code ! nat i) + 1)) = mode_index (code ! nat i) + 1"
      unfolding ci encode_mode_Suc by (simp add: mode_index_encode)
  qed
  have p4: "incr_times N init = Inr \<lparr>fs_m = m, fs_n = n, fs_code = None\<rparr>"
    unfolding init_def len [symmetric] using assms(1-3) by (rule incr_times_enum_end)
  have dist: "distinct ?L" by (rule distinct_occ_enum)
  have p5: "\<not> fockstate_eq a b"
    if "j < N" "k < N" "incr_times j init = Inr a" "incr_times k init = Inr b" "j \<noteq> k" for j k a b
  proof -
    from that st have a: "a = \<lparr>fs_m = m, fs_n = n, fs_code = Some (map encode_mode (?L ! j))\<rparr>"
      and b: "b = \<lparr>fs_m = m, fs_n = n, fs_code = Some (map encode_mode (?L ! k))\<rparr>"
      by auto
    from that dist len have "?L ! j \<noteq> ?L ! k"
      by (simp add: nth_eq_iff_index_eq)
    with el(4) [OF that(1)] el(4) [OF that(2)]
    have "map encode_mode (?L ! j) \<noteq> map encode_mode (?L ! k)"
      by (simp add: map_encode_mode_inject)
    moreover have "fs_inv a" "fs_inv b"
      unfolding a b using that inv by auto
    ultimately show ?thesis
      using fockstate_eq_defined [of a b] unfolding a b by simp
  qed
  have p6: "\<exists>!k. k < N \<and>
           incr_times k init = Inr \<lparr>fs_m = m, fs_n = n, fs_code = Some (map encode_mode ys)\<rparr>"
    if ys: "length ys = nat n" "sorted ys" "\<forall>y\<in>set ys. int y < m" for ys
  proof -
    from ys assms(1) have "ys \<in> set ?L"
      by (auto simp: set_occ_enum)
    then obtain k where k: "k < N" "?L ! k = ys"
      using len by (auto simp: in_set_conv_nth)
    from ys(3) assms(2) have y62: "\<forall>y\<in>set ys. y \<le> 62" by fastforce
    show ?thesis
    proof (rule ex1I [of _ k])
      show "k < N \<and> incr_times k init = Inr \<lparr>fs_m = m, fs_n = n, fs_code = Some (map encode_mode ys)\<rparr>"
        using k st by simp
    next
      fix k' assume k': "k' < N \<and>
        incr_times k' init = Inr \<lparr>fs_m = m, fs_n = n, fs_code = Some (map encode_mode ys)\<rparr>"
      with st [of k'] have "map encode_mode (?L ! k') = map encode_mode ys" by simp
      with el(4) [of k'] k' y62 have "?L ! k' = ys"
        by (simp add: map_encode_mode_inject)
      with k have "?L ! k' = ?L ! k" by simp
      moreover have "k' < length ?L" "k < length ?L" using k k' len by simp_all
      ultimately show "k' = k"
        using dist by (simp add: nth_eq_iff_index_eq)
    qed
  qed
  from p1 p2 p3 p4 p5 p6 show ?thesis by blast
qed

theorem successor_enumerates_witness:
  "(1::int) \<le> 3 \<and> (3::int) \<le> 63 \<and> (0::int) \<le> 2 \<and>
   fockstate_mn 3 2 = Inr \<lparr>fs_m = 3, fs_n = 2, fs_code = Some [65, 65]\<rparr> \<and>
   incr_times 6 \<lparr>fs_m = 3, fs_n = 2, fs_code = Some [65, 65]\<rparr>
     = Inr \<lparr>fs_m = 3, fs_n = 2, fs_code = None\<rparr>"
proof -
  have N: "nat (2 + 3 - 1) choose nat (3 - 1) = 6"
    by code_simp
  have i: "replicate (nat 2) (int_to_char 65) = [65, 65]"
    by (simp add: int_to_char_def numeral_2_eq_2)
  from successor_enumerates [of 3 2] show ?thesis
    unfolding N i by simp
qed

lemma incr_192_modes:
  "fockstate_incr \<lparr>fs_m = 192, fs_n = 1, fs_code = Some [c]\<rparr>
     = Inr \<lparr>fs_m = 192, fs_n = 1, fs_code = Some [c + 1]\<rparr>"
proof -
  let ?fs = "\<lparr>fs_m = 192, fs_n = 1, fs_code = Some [c]\<rparr>"
  have "char_to_int c \<noteq> 192 - 1 + 65"
    using char_to_int_range(2) [of c] by simp
  then have "fockstate_incr ?fs = Inr (?fs\<lparr>fs_code := Some (take (nat 0) [c] @
           replicate (nat (fs_n ?fs - 0)) (int_to_char (char_to_int ([c] ! nat 0) + 1)))\<rparr>)"
    by (intro fockstate_incr_last_index) simp_all
  then show ?thesis
    by (simp add: int_to_char_add) (simp add: int_to_char_def)
qed

lemma incr_times_192_modes:
  "incr_times k \<lparr>fs_m = 192, fs_n = 1, fs_code = Some [c]\<rparr>
     = Inr \<lparr>fs_m = 192, fs_n = 1, fs_code = Some [c + of_nat k]\<rparr>"
  by (induction k) (simp_all add: incr_192_modes add.assoc)

text \<open>
  Claim C1 as stated, for every \<open>m \<ge> 1\<close>: with 192 modes the byte of mode 191 would
  be \<open>'A' + 191 = 256\<close>, which no \<open>char\<close> holds, so the scan of \<open>operator++\<close> never
  finds a particle in the last mode and the state is never exhausted. One
  particle over 192 modes has \<open>C(192, 191) = 192\<close> occupations; after 192 steps the
  state is still defined, with the byte wrapped around to 1.
\<close>

theorem successor_wraps_at_192_modes:
  "nat (1 + 192 - 1) choose nat (192 - 1) = 192 \<and>
   fockstate_mn 192 1 = Inr \<lparr>fs_m = 192, fs_n = 1, fs_code = Some [65]\<rparr> \<and>
   incr_times 192 \<lparr>fs_m = 192, fs_n = 1, fs_code = Some [65]\<rparr>
     = Inr \<lparr>fs_m = 192, fs_n = 1, fs_code = Some [1]\<rparr>"
proof (intro conjI)
  have "(192::nat) choose 191 = 192"
    using binomial_symmetric [of 191 192] by (simp del: binomial_symmetric)
  then show "nat (1 + 192 - 1) choose nat (192 - 1) = 192"
    by simp
  show "fockstate_mn 192 1 = Inr \<lparr>fs_m = 192, fs_n = 1, fs_code = Some [65]\<rparr>"
    by (simp add: fockstate_mn_def int_to_char_def)
  show "incr_times 192 \<lparr>fs_m = 192, fs_n = 1, fs_code = Some [65]\<rparr>
     = Inr \<lparr>fs_m = 192, fs_n = 1, fs_code = Some [1]\<rparr>"
    unfolding incr_times_192_modes by simp
qed

subsection \<open>Exhaustion\<close>

text \<open>
  Claim C9: on a defined state whose particles are all in mode \<open>_m - 1\<close> the
  successor returns the same state with only the buffer dropped, and whenever the
  successor returns an undefined state this is the case: \<open>_m\<close> and \<open>_n\<close> keep their
  values, so the undefined state that follows a state with particles still has a
  positive particle count.
\<close>

theorem incr_exhausted_keeps_counts:
  assumes "fs_code fs = Some code" "length code = nat (fs_n fs)"
  shows "((\<forall>c\<in>set code. mode_index c = fs_m fs - 1) \<longrightarrow>
            fockstate_incr fs = Inr (fs\<lparr>fs_code := None\<rparr>)) \<and>
         (\<forall>fs'. fockstate_incr fs = Inr fs' \<and> fs_code fs' = None \<longrightarrow>
            (\<forall>c\<in>set code. mode_index c = fs_m fs - 1) \<and>
            fs_m fs' = fs_m fs \<and> fs_n fs' = fs_n fs \<and> fs' = fs\<lparr>fs_code := None\<rparr>)"
proof -
  define i where "i = scan_last (fs_m fs) code (fs_n fs - 1)"
  have step: "fockstate_incr fs =
           (if i < 0 then Inr (fs\<lparr>fs_code := None\<rparr>)
            else Inr (fs\<lparr>fs_code := Some (take (nat i) code @
                   replicate (nat (fs_n fs - i)) (int_to_char (char_to_int (code ! nat i) + 1)))\<rparr>))"
    using fockstate_incr_defined [OF assms] unfolding i_def .
  have neg: "i < 0" if "\<forall>c\<in>set code. mode_index c = fs_m fs - 1"
  proof (rule ccontr)
    assume "\<not> i < 0"
    then have i0: "0 \<le> i" by simp
    have "i \<le> fs_n fs - 1"
    proof (cases "- 1 \<le> fs_n fs - 1")
      case True
      from scan_last_spec [OF this] show ?thesis unfolding i_def by simp
    next
      case False
      then have "scan_last (fs_m fs) code (fs_n fs - 1) = fs_n fs - 1"
        by (subst scan_last.simps) auto
      then show ?thesis unfolding i_def by simp
    qed
    with i0 have n1: "- 1 \<le> fs_n fs - 1" by simp
    from i0 \<open>i \<le> fs_n fs - 1\<close> assms(2) have "code ! nat i \<in> set code" by simp
    with that have "mode_index (code ! nat i) = fs_m fs - 1" by simp
    moreover from scan_last_spec [OF n1, of "fs_m fs" code] i0
    have "char_to_int (code ! nat i) \<noteq> fs_m fs - 1 + 65"
      unfolding i_def by simp
    ultimately show False by (simp add: mode_index_def)
  qed
  have all: "\<forall>c\<in>set code. mode_index c = fs_m fs - 1" if "i < 0"
  proof
    fix c assume "c \<in> set code"
    then obtain k where k: "k < length code" "code ! k = c"
      by (auto simp: in_set_conv_nth)
    with assms(2) have n1: "- 1 \<le> fs_n fs - 1" by simp
    from scan_last_spec [OF n1, of "fs_m fs" code] that
    have "\<And>j. i < j \<Longrightarrow> j \<le> fs_n fs - 1 \<Longrightarrow> char_to_int (code ! nat j) = fs_m fs - 1 + 65"
      unfolding i_def by simp
    from this [of "int k"] k that assms(2) show "mode_index c = fs_m fs - 1"
      by (simp add: mode_index_def)
  qed
  show ?thesis
  proof (intro conjI impI allI)
    assume "\<forall>c\<in>set code. mode_index c = fs_m fs - 1"
    from neg [OF this] step show "fockstate_incr fs = Inr (fs\<lparr>fs_code := None\<rparr>)" by simp
  next
    fix fs' assume a: "fockstate_incr fs = Inr fs' \<and> fs_code fs' = None"
    with step have "i < 0" by (auto split: if_splits)
    then show "\<forall>c\<in>set code. mode_index c = fs_m fs - 1" by (rule all)
    from \<open>i < 0\<close> a step show "fs_m fs' = fs_m fs" "fs_n fs' = fs_n fs" "fs' = fs\<lparr>fs_code := None\<rparr>"
      by auto
  qed
qed

theorem incr_exhausted_keeps_counts_witness:
  "fs_code \<lparr>fs_m = 3, fs_n = 2, fs_code = Some [67, 67]\<rparr> = Some [67, 67] \<and>
   length [67 :: cchar, 67] = nat (fs_n \<lparr>fs_m = 3, fs_n = 2, fs_code = Some [67, 67]\<rparr>) \<and>
   mode_index 67 = 3 - 1 \<and>
   fockstate_incr \<lparr>fs_m = 3, fs_n = 2, fs_code = Some [67, 67]\<rparr>
     = Inr \<lparr>fs_m = 3, fs_n = 2, fs_code = None\<rparr> \<and>
   0 < fs_n \<lparr>fs_m = 3, fs_n = 2, fs_code = None\<rparr>"
proof -
  let ?fs = "\<lparr>fs_m = 3, fs_n = 2, fs_code = Some [67, 67]\<rparr>"
  have h1: "fs_code ?fs = Some [67, 67]" by simp
  have h2: "length [67 :: cchar, 67] = nat (fs_n ?fs)" by simp
  have h3: "mode_index 67 = 3 - 1" by (simp add: mode_index_def char_to_int_def)
  then have h4: "\<forall>c\<in>set [67, 67]. mode_index c = fs_m ?fs - 1" by simp
  from incr_exhausted_keeps_counts [OF h1 h2] h4
  have "fockstate_incr ?fs = Inr (?fs\<lparr>fs_code := None\<rparr>)" by blast
  with h1 h2 h3 show ?thesis by simp
qed

section \<open>The tensor product\<close>


lemma drop_take_done: "\<not> i < n \<Longrightarrow> drop (nat i) (take (nat n) code) = []"
  by simp








section \<open>Slices\<close>

subsection \<open>The loops\<close>






text \<open>With a step of zero the loop does not return.\<close>

lemma slice_m_loop_zero_step:
  assumes "slice_m_loop i e 0 sm = Some y" "- 2147483648 \<le> i" "i < 2147483648"
  shows "\<not> i < e"
proof -
  have "0 = (0::int) \<longrightarrow> - 2147483648 \<le> i \<longrightarrow> i < 2147483648 \<longrightarrow> \<not> i < e"
  proof (rule slice_m_loop.raw_induct [where P = "\<lambda>i e step sm y.
      step = 0 \<longrightarrow> - 2147483648 \<le> i \<longrightarrow> i < 2147483648 \<longrightarrow> \<not> i < e", OF _ assms(1)],
      goal_cases)
    case (1 f i' e' step' sm' y')
    show ?case
    proof (intro impI notI)
      assume h: "step' = 0" "- 2147483648 \<le> i'" "i' < 2147483648" "i' < e'"
      then have "wrap_int (i' + step') = i'"
        by (simp add: wrap_int_id)
      with 1(2) h have "f i' e' step' (wrap_int (sm' + 1)) = Some y'" by simp
      from 1(1) [OF this] h show False by simp
    qed
  qed
  with assms(2,3) show ?thesis by simp
qed

lemma slice_m_loop_zero_step_None:
  "i < e \<Longrightarrow> - 2147483648 \<le> i \<Longrightarrow> i < 2147483648 \<Longrightarrow> slice_m_loop i e 0 sm = None"
  using slice_m_loop_zero_step [of i e sm] by (cases "slice_m_loop i e 0 sm") auto









subsection \<open>\<open>_check_slice\<close>, \<open>slice\<close> and \<open>set_slice\<close> on defined states\<close>

lemma slice_start_nonneg: "0 \<le> slice_start m start'"
  by (simp add: slice_start_def Let_def)

lemma slice_end_le: "slice_end m end' \<le> m"
  by (simp add: slice_end_def Let_def)




lemma slice_zero_step:
  assumes "fs_code fs = Some code" "fs_m fs < 2147483648"
    and "slice_start (fs_m fs) start' < slice_end (fs_m fs) end'"
  shows "slice fs start' end' 0 = Inl nontermination"
proof -
  define s where "s = slice_start (fs_m fs) start'"
  define e where "e = slice_end (fs_m fs) end'"
  have "0 \<le> s" unfolding s_def by (rule slice_start_nonneg)
  moreover have "e \<le> fs_m fs" unfolding e_def by (rule slice_end_le)
  ultimately have "slice_m_loop s e 0 0 = None"
    using assms(2,3) unfolding s_def [symmetric] e_def [symmetric]
    by (intro slice_m_loop_zero_step_None) auto
  then show ?thesis
    using assms(1)
    by (simp add: slice_def check_slice_def slice_start_def slice_end_def Let_def s_def e_def)
qed













subsection \<open>Taking a slice and putting it back\<close>




section \<open>The invariants are kept\<close>

subsection \<open>Constructors and the parser\<close>



















subsection \<open>Successor, tensor product and copy\<close>


lemma fs_inv_undefined: "0 \<le> fs_m fs \<Longrightarrow> 0 \<le> fs_n fs \<Longrightarrow> fs_code fs = None \<Longrightarrow> fs_inv fs"
  by (simp add: fs_inv_def)





subsection \<open>Slices\<close>







subsection \<open>The occupations of an undefined state\<close>



lemma spec_inv_undefined: "fs_code fs = None \<Longrightarrow> \<not> spec_inv fs"
  by (auto simp: spec_inv_def split: sum.splits)

subsection \<open>All operations\<close>




section \<open>Operations on undefined states\<close>

text \<open>
  The successor, \<open>operator+\<close>, the tensor product, \<open>slice\<close> and \<open>set_slice\<close> on an
  undefined receiver look at \<open>_code\<close> first and raise \<open>invalid_argument\<close>.
\<close>

lemma undefined_operand_raises:
  assumes "fs_code fs = None"
  shows "fockstate_incr fs = Inl (invalid_argument ''cannot make operation on ndef-state'')"
    and "fockstate_plus fs c = Some (Inl (invalid_argument ''cannot make operation on ndef-state''))"
    and "fockstate_mult fs b = Inl (invalid_argument ''cannot make operation on ndef-state'')"
    and "fockstate_mult a fs = Inl (invalid_argument ''cannot make operation on ndef-state'')"
    and "slice fs start stop step = Inl (invalid_argument ''cannot make operation on ndef-state'')"
    and "set_slice fs r start stop = Inl (invalid_argument ''cannot make operation on ndef-state'')"
  using assms
  by (simp_all add: fockstate_incr_def fockstate_plus_def fockstate_mult_def slice_def set_slice_def
      check_slice_def Let_def)

lemma plus_assign_zero: "fockstate_plus_assign fs 0 = Some (Inr fs)"
  by (simp add: fockstate_plus_assign_def incr_loop.simps)

text \<open>
  Claim C2 on the operations that do not look at \<open>_code\<close>. \<open>operator[]\<close> on the
  undefined state that \<open>"|,,>"\<close> parses to returns 0 for mode 0, and on an undefined
  state with particles it reads through the null pointer; \<open>operator+=\<close> with a
  count of zero returns the undefined state unchanged; \<open>set_slice\<close> with an
  undefined replacement without particles returns a defined state.
\<close>

theorem index_of_undefined_state:
  "parse_str (\<lambda>s. None) ''|,,>'' = Inr \<lparr>fs_m = 3, fs_n = 0, fs_code = None\<rparr> \<and>
   fockstate_index \<lparr>fs_m = 3, fs_n = 0, fs_code = None\<rparr> 0 = Inr 0 \<and>
   fockstate_index \<lparr>fs_m = 3, fs_n = 2, fs_code = None\<rparr> 0 = Inl null_dereference \<and>
   fockstate_plus_assign \<lparr>fs_m = 3, fs_n = 0, fs_code = None\<rparr> 0
     = Some (Inr \<lparr>fs_m = 3, fs_n = 0, fs_code = None\<rparr>) \<and>
   set_slice \<lparr>fs_m = 2, fs_n = 1, fs_code = Some [65]\<rparr> \<lparr>fs_m = 2, fs_n = 0, fs_code = None\<rparr> 0 2
     = Inr \<lparr>fs_m = 2, fs_n = 0, fs_code = Some []\<rparr>"
proof (intro conjI)
  show "parse_str (\<lambda>s. None) ''|,,>'' = Inr \<lparr>fs_m = 3, fs_n = 0, fs_code = None\<rparr>"
    by (simp add: parse_str_def parse_terms.simps count_commas.simps peek_def)
  show "fockstate_index \<lparr>fs_m = 3, fs_n = 0, fs_code = None\<rparr> 0 = Inr 0"
    by (simp add: fockstate_index_def index_loop.simps)
  show "fockstate_index \<lparr>fs_m = 3, fs_n = 2, fs_code = None\<rparr> 0 = Inl null_dereference"
    by (simp add: fockstate_index_def index_loop.simps)
  show "fockstate_plus_assign \<lparr>fs_m = 3, fs_n = 0, fs_code = None\<rparr> 0
     = Some (Inr \<lparr>fs_m = 3, fs_n = 0, fs_code = None\<rparr>)"
    by (rule plus_assign_zero)
  show "set_slice \<lparr>fs_m = 2, fs_n = 1, fs_code = Some [65]\<rparr> \<lparr>fs_m = 2, fs_n = 0, fs_code = None\<rparr> 0 2
     = Inr \<lparr>fs_m = 2, fs_n = 0, fs_code = Some []\<rparr>"
    by code_simp
qed

end
